theory Spec2Isabelle
  imports Main "HOL-Library.Monad_Syntax"
begin

section \<open>Points and the two comparators\<close>

text \<open>
  A \<open>point_type\<close> is an immutable pair of an argument and a value; only the class
  itself can construct one. Both \<open>A\<close> and \<open>V\<close> are totally ordered by \<open><\<close>.
\<close>

datatype ('a, 'v) point_type = Point (arg: 'a) (val: 'v)

definition compare_points :: "('a::linorder, 'v) point_type \<Rightarrow> ('a, 'v) point_type \<Rightarrow> bool" where
  "compare_points lhs rhs = (arg lhs < arg rhs)"

definition compare_maxima :: "('a::linorder, 'v::linorder) point_type \<Rightarrow> ('a, 'v) point_type \<Rightarrow> bool" where
  "compare_maxima lhs rhs =
     (if val rhs < val lhs then True
      else if val lhs < val rhs then False
      else arg lhs < arg rhs)"

section \<open>The two ordered containers\<close>

subsection \<open>\<open>points\<close>: a multiset ordered by argument\<close>

text \<open>
  The multiset is the list of its elements in iteration order. An iterator is a position
  in that list or the past-the-end iterator. Incrementing \<open>end()\<close>, decrementing
  \<open>end()\<close> of an empty container, dereferencing \<open>end()\<close> and using a position that
  the container does not have are outside what the class ever does and have no defined
  behaviour; the navigation functions return \<open>None\<close> there.

  Decrementing \<open>begin()\<close> is different: \<open>erase\<close> does it whenever it erases the least
  argument (\<open>prev(it)\<close>, with no test for \<open>begin()\<close>), and so does \<open>multi_prev\<close> whenever
  \<open>custom_insert\<close> gives the least argument a new value (\<open>prev(prev(p))\<close>). The language
  standard does not define the result. The red-black tree of the GNU C++ library walks up
  from the leftmost node and stops at the header node, which is \<open>end()\<close>; when the root is
  itself the leftmost node (a tree of one node, or of two with the second to the right) it
  stops at the root, which is \<open>begin()\<close>. The model takes the first answer, \<open>End\<close>. The class
  passes the result of such a step only to \<open>conditional_add_new_maximum\<close>, with \<open>begin()\<close>
  as the iterator to skip, and that function returns at once for \<open>end()\<close> and for the
  iterator to skip alike (lemma \<open>before_begin_is_ignored\<close> below), so the calls do the same
  with either answer.

  Iterators of a node-based container stay valid when other elements are inserted. The
  only iterator the class holds across an insertion is \<open>previous\<close> in
  \<open>custom_insert\<close>: it is \<open>End\<close>, or it designates the element just before the
  insertion position, so its position does not move.
\<close>

datatype iterator = Pos nat | End

definition it_begin :: "'x list \<Rightarrow> iterator" where
  "it_begin ps = (if ps = [] then End else Pos 0)"

fun std_next :: "'x list \<Rightarrow> iterator \<Rightarrow> iterator option" where
  "std_next ps (Pos i) =
     (if Suc i < length ps then Some (Pos (Suc i))
      else if Suc i = length ps then Some End
      else None)"
| "std_next ps End = None"

fun std_prev :: "'x list \<Rightarrow> iterator \<Rightarrow> iterator option" where
  "std_prev ps (Pos i) =
     (if 0 < i \<and> i < length ps then Some (Pos (i - 1))
      else if i = 0 \<and> ps \<noteq> [] then Some End
      else None)"
| "std_prev ps End = (if ps = [] then None else Some (Pos (length ps - 1)))"

fun deref :: "'x list \<Rightarrow> iterator \<Rightarrow> 'x option" where
  "deref ps (Pos i) = (if i < length ps then Some (ps ! i) else None)"
| "deref ps End = None"

text \<open>\<open>points.find(a)\<close>: the lower bound of \<open>a\<close>, if its argument is not greater than \<open>a\<close>.\<close>

definition points_find :: "('a::linorder, 'v) point_type list \<Rightarrow> 'a \<Rightarrow> iterator" where
  "points_find ps a =
     (let i = length (takeWhile (\<lambda>q. arg q < a) ps)
      in if i < length ps \<and> \<not> a < arg (ps ! i) then Pos i else End)"

text \<open>\<open>points.insert(p)\<close>: a multiset inserts at the upper bound of the equal range.\<close>

definition points_insert ::
  "('a::linorder, 'v) point_type list \<Rightarrow> ('a, 'v) point_type \<Rightarrow> ('a, 'v) point_type list \<times> iterator" where
  "points_insert ps p =
     (let j = length (takeWhile (\<lambda>q. \<not> compare_points p q) ps)
      in (take j ps @ p # drop j ps, Pos j))"

text \<open>\<open>points.erase(it)\<close>: the iterator must be dereferenceable.\<close>

fun points_erase :: "'x list \<Rightarrow> iterator \<Rightarrow> 'x list option" where
  "points_erase ps (Pos i) = (if i < length ps then Some (take i ps @ drop (Suc i) ps) else None)"
| "points_erase ps End = None"

subsection \<open>\<open>maxima\<close>: a set ordered by \<open>compare_maxima\<close>\<close>

text \<open>
  The set is the list of its elements in iteration order. Its iterators are stable under
  insertion and removal of other elements, and no two elements of a set are equivalent,
  so an iterator is the element it designates; \<open>None\<close> is \<open>maxima.end()\<close> (and the
  value-initialised iterators of the buffers).
\<close>

type_synonym ('a, 'v) mx_iterator = "('a, 'v) point_type option"

fun set_find :: "('a::linorder, 'v::linorder) point_type list \<Rightarrow> ('a, 'v) point_type \<Rightarrow> ('a, 'v) mx_iterator" where
  "set_find [] p = None"
| "set_find (q # qs) p =
     (if compare_maxima q p then set_find qs p
      else if compare_maxima p q then None
      else Some q)"

fun set_insert ::
  "('a::linorder, 'v::linorder) point_type list \<Rightarrow> ('a, 'v) point_type
     \<Rightarrow> ('a, 'v) point_type list \<times> ('a, 'v) mx_iterator" where
  "set_insert [] p = ([p], Some p)"
| "set_insert (q # qs) p =
     (if compare_maxima q p then (case set_insert qs p of (qs', r) \<Rightarrow> (q # qs', r))
      else if compare_maxima p q then (p # q # qs, Some p)
      else (q # qs, Some q))"

section \<open>The class state\<close>

record ('a, 'v) FunctionMaxima =
  points :: "('a, 'v) point_type list"
  maxima :: "('a, 'v) point_type list"
  to_erase :: "('a, 'v) mx_iterator list"
  to_rollback :: "('a, 'v) mx_iterator list"
  if_erase :: "bool list"
  if_rollback :: "bool list"

definition NUMBER_TO_ERASE :: nat where
  "NUMBER_TO_ERASE = 5"

definition NUMBER_TO_ROLLBACK :: nat where
  "NUMBER_TO_ROLLBACK = 4"

section \<open>Calls that return, throw, or have no defined behaviour\<close>

text \<open>
  A member function runs on a pair of a comparison budget and the object. The budget is
  the state of the user-supplied \<open>operator<\<close> of \<open>V\<close>: the number of its further
  invocations that return before one throws. The comparisons on \<open>A\<close> do not throw.
  A call returns a result, or throws an exception, both with the state they leave, or it
  has no defined behaviour, and then nothing is known of the state.

  \<open>std::set::find\<close> and \<open>std::set::insert\<close> call \<open>compare_maxima\<close> a number of
  times that depends on the shape of the tree; each of these calls is charged one unit of
  the budget, and by the container requirements of the standard a throwing \<open>find\<close> or
  single-element \<open>insert\<close> leaves the set as it was.
\<close>

datatype exn = InvalidArg | ComparisonFailure

datatype ('r, 's) outcome = Return 'r 's | Throw exn 's | Undefined

type_synonym ('a, 'v) state = "nat \<times> ('a, 'v) FunctionMaxima"

type_synonym ('r, 'a, 'v) M = "('a, 'v) state \<Rightarrow> ('r, ('a, 'v) state) outcome"

definition returnM :: "'r \<Rightarrow> 's \<Rightarrow> ('r, 's) outcome" where
  "returnM x = (\<lambda>s. Return x s)"

definition bindM :: "('s \<Rightarrow> ('r, 's) outcome) \<Rightarrow> ('r \<Rightarrow> 's \<Rightarrow> ('q, 's) outcome) \<Rightarrow> 's \<Rightarrow> ('q, 's) outcome" where
  "bindM m f = (\<lambda>s. case m s of
       Return x s' \<Rightarrow> f x s'
     | Throw e s' \<Rightarrow> Throw e s'
     | Undefined \<Rightarrow> Undefined)"

text \<open>\<open>try { body } catch (...) { handler; throw; }\<close>\<close>

definition try_catch_rethrow ::
  "('s \<Rightarrow> ('r, 's) outcome) \<Rightarrow> ('s \<Rightarrow> (unit, 's) outcome) \<Rightarrow> 's \<Rightarrow> ('r, 's) outcome" where
  "try_catch_rethrow body handler = (\<lambda>s. case body s of
       Return x s' \<Rightarrow> Return x s'
     | Throw e s' \<Rightarrow> (case handler s' of
           Return u s'' \<Rightarrow> Throw e s''
         | Throw e' s'' \<Rightarrow> Throw e' s''
         | Undefined \<Rightarrow> Undefined)
     | Undefined \<Rightarrow> Undefined)"

definition getsM :: "(('a, 'v) FunctionMaxima \<Rightarrow> 'r) \<Rightarrow> ('r, 'a, 'v) M" where
  "getsM f = (\<lambda>(k, s). Return (f s) (k, s))"

definition modifyM :: "(('a, 'v) FunctionMaxima \<Rightarrow> ('a, 'v) FunctionMaxima) \<Rightarrow> (unit, 'a, 'v) M" where
  "modifyM f = (\<lambda>(k, s). Return () (k, f s))"

text \<open>A step on the \<open>points\<close> container that is defined only on valid iterators.\<close>

definition via_points :: "(('a, 'v) point_type list \<Rightarrow> 'r option) \<Rightarrow> ('r, 'a, 'v) M" where
  "via_points f = (\<lambda>(k, s). case f (points s) of None \<Rightarrow> Undefined | Some r \<Rightarrow> Return r (k, s))"

text \<open>\<open>x < y\<close> on \<open>V\<close>.\<close>

definition less_V :: "'v::linorder \<Rightarrow> 'v \<Rightarrow> (bool, 'a, 'v) M" where
  "less_V x y = (\<lambda>(k, s). if k = 0 then Throw ComparisonFailure (k, s) else Return (x < y) (k - 1, s))"

definition mx_find :: "('a::linorder, 'v::linorder) point_type \<Rightarrow> (('a, 'v) mx_iterator, 'a, 'v) M" where
  "mx_find p = (\<lambda>(k, s). if k = 0 then Throw ComparisonFailure (k, s)
                          else Return (set_find (maxima s) p) (k - 1, s))"

definition mx_insert :: "('a::linorder, 'v::linorder) point_type \<Rightarrow> (('a, 'v) mx_iterator, 'a, 'v) M" where
  "mx_insert p = (\<lambda>(k, s). if k = 0 then Throw ComparisonFailure (k, s)
                            else (case set_insert (maxima s) p of
                                    (m', r) \<Rightarrow> Return r (k - 1, s\<lparr>maxima := m'\<rparr>)))"

text \<open>\<open>maxima.erase(it)\<close> compares nothing; the iterator must designate an element of the set.\<close>

definition mx_erase :: "('a, 'v) mx_iterator \<Rightarrow> (unit, 'a, 'v) M" where
  "mx_erase it = (\<lambda>(k, s). case it of
       None \<Rightarrow> Undefined
     | Some q \<Rightarrow> if q \<in> set (maxima s) then Return () (k, s\<lparr>maxima := remove1 q (maxima s)\<rparr>)
                 else Undefined)"

definition insert_point :: "('a::linorder, 'v) point_type \<Rightarrow> (iterator, 'a, 'v) M" where
  "insert_point p = (\<lambda>(k, s). case points_insert (points s) p of
       (ps', it) \<Rightarrow> Return it (k, s\<lparr>points := ps'\<rparr>))"

definition erase_point :: "iterator \<Rightarrow> (unit, 'a, 'v) M" where
  "erase_point it = (\<lambda>(k, s). case points_erase (points s) it of
       None \<Rightarrow> Undefined
     | Some ps' \<Rightarrow> Return () (k, s\<lparr>points := ps'\<rparr>))"

section \<open>The private member functions\<close>

subsection \<open>The buffers\<close>

definition clear_erase :: "(unit, 'a, 'v) M" where
  "clear_erase = modifyM (\<lambda>s. s\<lparr>if_erase := fold (\<lambda>i b. b[i := False]) [0..<NUMBER_TO_ERASE] (if_erase s)\<rparr>)"

definition clear_rollback :: "(unit, 'a, 'v) M" where
  "clear_rollback = modifyM (\<lambda>s. s\<lparr>if_rollback := fold (\<lambda>i b. b[i := False]) [0..<NUMBER_TO_ROLLBACK] (if_rollback s)\<rparr>)"

fun rollback_loop :: "nat list \<Rightarrow> (unit, 'a, 'v) M" where
  "rollback_loop [] = returnM ()"
| "rollback_loop (i # is) =
     bindM (\<lambda>(k, s). if if_rollback s ! i then mx_erase (to_rollback s ! i) (k, s) else Return () (k, s))
       (\<lambda>_. rollback_loop is)"

definition rollback_maxima :: "(unit, 'a, 'v) M" where
  "rollback_maxima = rollback_loop [0..<NUMBER_TO_ROLLBACK]"

fun erase_loop :: "nat list \<Rightarrow> (unit, 'a, 'v) M" where
  "erase_loop [] = returnM ()"
| "erase_loop (i # is) =
     bindM (\<lambda>(k, s). if if_erase s ! i then mx_erase (to_erase s ! i) (k, s) else Return () (k, s))
       (\<lambda>_. erase_loop is)"

definition erase_from_maxima :: "(unit, 'a, 'v) M" where
  "erase_from_maxima = erase_loop [0..<NUMBER_TO_ERASE]"

subsection \<open>Neighbours that skip the point about to be erased\<close>

definition multi_prev :: "'x list \<Rightarrow> iterator \<Rightarrow> iterator \<Rightarrow> iterator option" where
  "multi_prev ps p to_be_erased =
     do { q \<leftarrow> std_prev ps p;
          if q = to_be_erased then std_prev ps q else Some q }"

definition multi_next :: "'x list \<Rightarrow> iterator \<Rightarrow> iterator \<Rightarrow> iterator option" where
  "multi_next ps p previous =
     (if p = End then Some End
      else do { n \<leftarrow> std_next ps p;
                if n = End then Some End
                else if n = previous then std_next ps n
                else Some n })"

definition multi_is_beginning :: "'x list \<Rightarrow> iterator \<Rightarrow> iterator \<Rightarrow> bool option" where
  "multi_is_beginning ps p previous =
     (if p = it_begin ps then Some True
      else do { q \<leftarrow> std_prev ps p;
                if q = previous \<and> q = it_begin ps then Some True else Some False })"

definition multi_is_ending :: "'x list \<Rightarrow> iterator \<Rightarrow> iterator \<Rightarrow> bool option" where
  "multi_is_ending ps p previous =
     do { l \<leftarrow> std_prev ps End;
          if p = l then Some True
          else do { n \<leftarrow> std_next ps p;
                    if n = previous \<and> n = l then Some True else Some False } }"

subsection \<open>Classification of a point\<close>

definition greater_than_next :: "iterator \<Rightarrow> iterator \<Rightarrow> (bool, 'a, 'v::linorder) M" where
  "greater_than_next p previous =
     bindM (via_points (\<lambda>ps. multi_is_ending ps p previous)) (\<lambda>ending.
     if ending then returnM True
     else
       bindM (via_points (\<lambda>ps. deref ps p)) (\<lambda>x.
       bindM (via_points (\<lambda>ps. multi_next ps p previous)) (\<lambda>n.
       bindM (via_points (\<lambda>ps. deref ps n)) (\<lambda>y.
       bindM (less_V (val x) (val y)) (\<lambda>b.
       if b then returnM False else returnM True)))))"

definition greater_than_prev :: "iterator \<Rightarrow> iterator \<Rightarrow> (bool, 'a, 'v::linorder) M" where
  "greater_than_prev p previous =
     bindM (via_points (\<lambda>ps. multi_is_beginning ps p previous)) (\<lambda>beginning.
     if beginning then returnM True
     else
       bindM (via_points (\<lambda>ps. deref ps p)) (\<lambda>x.
       bindM (via_points (\<lambda>ps. multi_prev ps p previous)) (\<lambda>n.
       bindM (via_points (\<lambda>ps. deref ps n)) (\<lambda>y.
       bindM (less_V (val x) (val y)) (\<lambda>b.
       if b then returnM False else returnM True)))))"

definition is_maximum :: "iterator \<Rightarrow> iterator \<Rightarrow> (bool, 'a, 'v::linorder) M" where
  "is_maximum p previous =
     bindM (greater_than_prev p previous) (\<lambda>g.
     if g then greater_than_next p previous else returnM False)"

definition present_in_maxima_set :: "('a::linorder, 'v::linorder) point_type \<Rightarrow> (bool, 'a, 'v) M" where
  "present_in_maxima_set p = bindM (mx_find p) (\<lambda>r. returnM (r \<noteq> None))"

definition conditional_add_new_maximum :: "iterator \<Rightarrow> nat \<Rightarrow> iterator \<Rightarrow> (unit, 'a::linorder, 'v::linorder) M" where
  "conditional_add_new_maximum it i previous =
     (if it = End \<or> it = previous then returnM ()
      else
        bindM (is_maximum it previous) (\<lambda>is_max.
        bindM (via_points (\<lambda>ps. deref ps it)) (\<lambda>p.
        if is_max then
          bindM (present_in_maxima_set p) (\<lambda>present.
          if \<not> present then
            bindM (mx_insert p) (\<lambda>r.
            modifyM (\<lambda>s. s\<lparr>to_rollback := (to_rollback s)[i := r],
                            if_rollback := (if_rollback s)[i := True]\<rparr>))
          else returnM ())
        else
          bindM (present_in_maxima_set p) (\<lambda>present.
          if present then
            bindM (mx_find p) (\<lambda>r.
            modifyM (\<lambda>s. s\<lparr>to_erase := (to_erase s)[i := r],
                            if_erase := (if_erase s)[i := True]\<rparr>))
          else returnM ()))))"

definition equivalent :: "'v::linorder \<Rightarrow> 'v \<Rightarrow> (bool, 'a, 'v) M" where
  "equivalent v1 v2 =
     bindM (less_V v1 v2) (\<lambda>b1.
     if b1 then returnM False
     else
       bindM (less_V v2 v1) (\<lambda>b2.
       if b2 then returnM False else returnM True))"

subsection \<open>\<open>custom_insert\<close>\<close>

text \<open>The \<open>try\<close> block of \<open>custom_insert\<close>.\<close>

definition custom_insert_try :: "iterator \<Rightarrow> iterator \<Rightarrow> bool \<Rightarrow> (unit, 'a::linorder, 'v::linorder) M" where
  "custom_insert_try it previous found =
     bindM (conditional_add_new_maximum it 1 previous) (\<lambda>_.
     bindM (via_points (\<lambda>ps. multi_next ps it previous)) (\<lambda>n.
     bindM (conditional_add_new_maximum n 2 previous) (\<lambda>_.
     bindM (getsM (\<lambda>s. it \<noteq> it_begin (points s))) (\<lambda>not_first.
     bindM (if not_first
            then bindM (via_points (\<lambda>ps. multi_prev ps it previous)) (\<lambda>l.
                 conditional_add_new_maximum l 3 previous)
            else returnM ()) (\<lambda>_.
     if found then
       bindM (via_points (\<lambda>ps. deref ps previous)) (\<lambda>p.
       bindM (mx_find p) (\<lambda>temp.
       bindM (if temp \<noteq> None
              then modifyM (\<lambda>s. s\<lparr>to_erase := (to_erase s)[4 := temp],
                                   if_erase := (if_erase s)[4 := True]\<rparr>)
              else returnM ()) (\<lambda>_.
       erase_point previous)))
     else returnM ())))))"

text \<open>Its \<open>catch\<close> block, before the exception is thrown again.\<close>

definition custom_insert_catch :: "iterator \<Rightarrow> (unit, 'a, 'v) M" where
  "custom_insert_catch it =
     bindM (erase_point it) (\<lambda>_.
     bindM rollback_maxima (\<lambda>_.
     bindM clear_rollback (\<lambda>_.
     clear_erase)))"

definition custom_insert :: "'a::linorder \<Rightarrow> 'v::linorder \<Rightarrow> (unit, 'a, 'v) M" where
  "custom_insert a v =
     bindM (getsM (\<lambda>s. points_find (points s) a)) (\<lambda>previous.
     bindM (if previous \<noteq> End
            then bindM (via_points (\<lambda>ps. deref ps previous)) (\<lambda>q. equivalent v (val q))
            else returnM False) (\<lambda>same.
     if same then returnM ()
     else
       let found = (previous \<noteq> End) in
       bindM (insert_point (Point a v)) (\<lambda>it.
       bindM (try_catch_rethrow (custom_insert_try it previous found) (custom_insert_catch it)) (\<lambda>_.
       bindM erase_from_maxima (\<lambda>_.
       bindM clear_rollback (\<lambda>_.
       clear_erase))))))"

section \<open>The public member functions\<close>

definition FunctionMaxima_init :: "('a, 'v) FunctionMaxima" where
  "FunctionMaxima_init =
     \<lparr>points = [], maxima = [],
      to_erase = replicate NUMBER_TO_ERASE None,
      to_rollback = replicate NUMBER_TO_ROLLBACK None,
      if_erase = replicate NUMBER_TO_ERASE False,
      if_rollback = replicate NUMBER_TO_ROLLBACK False\<rparr>"

definition set_value :: "'a::linorder \<Rightarrow> 'v::linorder \<Rightarrow> (unit, 'a, 'v) M" where
  "set_value a v = custom_insert a v"

text \<open>The \<open>try\<close> and \<open>catch\<close> blocks of \<open>erase\<close>.\<close>

definition erase_try :: "iterator \<Rightarrow> ('a, 'v) mx_iterator \<Rightarrow> (unit, 'a::linorder, 'v::linorder) M" where
  "erase_try it it2 =
     bindM (if it2 \<noteq> None
            then modifyM (\<lambda>s. s\<lparr>to_erase := (to_erase s)[0 := it2],
                                 if_erase := (if_erase s)[0 := True]\<rparr>)
            else returnM ()) (\<lambda>_.
     bindM (via_points (\<lambda>ps. std_next ps it)) (\<lambda>n.
     bindM (conditional_add_new_maximum n 2 it) (\<lambda>_.
     bindM (via_points (\<lambda>ps. std_prev ps it)) (\<lambda>l.
     conditional_add_new_maximum l 3 it))))"

definition erase_catch :: "(unit, 'a, 'v) M" where
  "erase_catch =
     bindM rollback_maxima (\<lambda>_.
     bindM clear_rollback (\<lambda>_.
     clear_erase))"

definition erase :: "'a::linorder \<Rightarrow> (unit, 'a, 'v::linorder) M" where
  "erase a =
     bindM (getsM (\<lambda>s. points_find (points s) a)) (\<lambda>it.
     if it \<noteq> End then
       bindM (via_points (\<lambda>ps. deref ps it)) (\<lambda>p.
       bindM (mx_find p) (\<lambda>it2.
       bindM (try_catch_rethrow (erase_try it it2) erase_catch) (\<lambda>_.
       bindM erase_from_maxima (\<lambda>_.
       bindM (erase_point it) (\<lambda>_.
       bindM clear_rollback (\<lambda>_.
       clear_erase))))))
     else returnM ())"

definition size_fm :: "(nat, 'a, 'v) M" where
  "size_fm = getsM (\<lambda>s. length (points s))"

definition value_at :: "'a::linorder \<Rightarrow> ('v, 'a, 'v) M" where
  "value_at a =
     bindM (getsM (\<lambda>s. points_find (points s) a)) (\<lambda>res_it.
     if res_it = End then (\<lambda>s. Throw InvalidArg s)
     else bindM (via_points (\<lambda>ps. deref ps res_it)) (\<lambda>p. returnM (val p)))"

section \<open>Sequences of calls\<close>

text \<open>
  A caller runs a sequence of mutating calls, each with its own comparison budget, and
  goes on after an exception. A call without defined behaviour would end the run; no call
  of a run that starts from the empty structure is one (lemma \<open>run_defined\<close> below).
\<close>

datatype ('a, 'v) call = Set_value 'a 'v | Erase 'a

fun perform :: "('a::linorder, 'v::linorder) call \<Rightarrow> (unit, 'a, 'v) M" where
  "perform (Set_value a v) = set_value a v"
| "perform (Erase a) = erase a"

fun run :: "(('a::linorder, 'v::linorder) call \<times> nat) list \<Rightarrow> ('a, 'v) FunctionMaxima
    \<Rightarrow> ('a, 'v) FunctionMaxima option" where
  "run [] s = Some s"
| "run ((c, k) # cs) s =
     (case perform c (k, s) of
        Return u (k', s') \<Rightarrow> run cs s'
      | Throw e (k', s') \<Rightarrow> run cs s'
      | Undefined \<Rightarrow> None)"

text \<open>The object after a call, if the call returned.\<close>

definition returned :: "('r, ('a, 'v) state) outcome \<Rightarrow> ('a, 'v) FunctionMaxima option" where
  "returned out = (case out of Return r (k', s') \<Rightarrow> Some s' | Throw e st \<Rightarrow> None | Undefined \<Rightarrow> None)"

section \<open>Local maxima of a sequence of points\<close>

text \<open>
  The neighbours of the point at position \<open>i\<close> of the ascending sequence of points, and
  the classification of the specification: a point is a local maximum if it is not less
  than each neighbour it has.
\<close>

definition left_neighbour :: "'x list \<Rightarrow> nat \<Rightarrow> 'x option" where
  "left_neighbour ps i = (if 0 < i then Some (ps ! (i - 1)) else None)"

definition right_neighbour :: "'x list \<Rightarrow> nat \<Rightarrow> 'x option" where
  "right_neighbour ps i = (if Suc i < length ps then Some (ps ! Suc i) else None)"

definition local_maximum :: "('a, 'v::linorder) point_type list \<Rightarrow> nat \<Rightarrow> bool" where
  "local_maximum ps i =
     ((case left_neighbour ps i of None \<Rightarrow> True | Some l \<Rightarrow> \<not> val (ps ! i) < val l) \<and>
      (case right_neighbour ps i of None \<Rightarrow> True | Some r \<Rightarrow> \<not> val (ps ! i) < val r))"

definition local_maxima :: "('a, 'v::linorder) point_type list \<Rightarrow> ('a, 'v) point_type list" where
  "local_maxima ps = map (\<lambda>i. ps ! i) (filter (local_maximum ps) [0..<length ps])"

text \<open>
  The sequence of points with the element at an iterator left out, and the position an
  element of the sequence has in the shorter one.
\<close>

fun without :: "iterator \<Rightarrow> 'x list \<Rightarrow> 'x list" where
  "without End ps = ps"
| "without (Pos j) ps = take j ps @ drop (Suc j) ps"

fun index_without :: "iterator \<Rightarrow> nat \<Rightarrow> nat" where
  "index_without End i = i"
| "index_without (Pos j) i = (if i < j then i else i - 1)"

definition valid_skip :: "'x list \<Rightarrow> nat \<Rightarrow> iterator \<Rightarrow> bool" where
  "valid_skip qs i previous \<longleftrightarrow>
     i < length qs \<and> (case previous of End \<Rightarrow> True | Pos j \<Rightarrow> j < length qs \<and> j \<noteq> i)"

section \<open>Predicates for the proofs\<close>

text \<open>
  The outcome of a step with budget \<open>k\<close> that makes at most \<open>c\<close> comparisons:
  it returns a known result in a known state, or it throws in a known state because
  the budget ran out.
\<close>

definition step_result ::
  "('r, ('a, 'v) state) outcome \<Rightarrow> nat \<Rightarrow> nat \<Rightarrow> 'r \<Rightarrow> ('a, 'v) FunctionMaxima \<Rightarrow> ('a, 'v) FunctionMaxima \<Rightarrow> bool" where
  "step_result out k c r s_ret s_thr \<longleftrightarrow>
     (\<exists>k'. out = Return r (k', s_ret) \<and> k' \<le> k \<and> k \<le> k' + c) \<or>
     (out = Throw ComparisonFailure (0, s_thr) \<and> k < c)"

text \<open>
  The object after \<open>conditional_add_new_maximum\<close> has classified the point \<open>p\<close> with the
  result \<open>is_max\<close> and used the buffers at index \<open>i\<close>.
\<close>

definition staged_result ::
  "('a::linorder, 'v::linorder) FunctionMaxima \<Rightarrow> nat \<Rightarrow> ('a, 'v) point_type \<Rightarrow> bool \<Rightarrow> ('a, 'v) FunctionMaxima" where
  "staged_result s i p is_max =
     (if is_max then
        (if p \<in> set (maxima s) then s
         else s\<lparr>maxima := fst (set_insert (maxima s) p),
                to_rollback := (to_rollback s)[i := Some p],
                if_rollback := (if_rollback s)[i := True]\<rparr>)
      else
        (if p \<in> set (maxima s)
         then s\<lparr>to_erase := (to_erase s)[i := Some p], if_erase := (if_erase s)[i := True]\<rparr>
         else s))"

text \<open>
  The points recorded in the buffers, and the state of the buffers and of \<open>maxima\<close>
  inside a \<open>try\<close> block: \<open>m0\<close> is the set of maxima at the start of the call,
  \<open>W\<close> the set wanted at its end, \<open>T\<close> the points classified so far and
  \<open>I\<close> the buffer slots used so far.
\<close>

definition staged_ins :: "('a, 'v) FunctionMaxima \<Rightarrow> ('a, 'v) point_type set" where
  "staged_ins s = {p. \<exists>i<NUMBER_TO_ROLLBACK. if_rollback s ! i \<and> to_rollback s ! i = Some p}"

definition staged_del :: "('a, 'v) FunctionMaxima \<Rightarrow> ('a, 'v) point_type set" where
  "staged_del s = {p. \<exists>i<NUMBER_TO_ERASE. if_erase s ! i \<and> to_erase s ! i = Some p}"

definition buffers_ok :: "('a, 'v) FunctionMaxima \<Rightarrow> bool" where
  "buffers_ok s \<longleftrightarrow>
     length (to_erase s) = NUMBER_TO_ERASE \<and> length (if_erase s) = NUMBER_TO_ERASE \<and>
     length (to_rollback s) = NUMBER_TO_ROLLBACK \<and> length (if_rollback s) = NUMBER_TO_ROLLBACK"

definition slots_ok :: "nat set \<Rightarrow> ('a, 'v) FunctionMaxima \<Rightarrow> bool" where
  "slots_ok I s \<longleftrightarrow>
     (\<forall>i<NUMBER_TO_ROLLBACK. if_rollback s ! i \<longrightarrow> i \<in> I \<and> to_rollback s ! i \<noteq> None) \<and>
     (\<forall>i<NUMBER_TO_ERASE. if_erase s ! i \<longrightarrow> i \<in> I \<and> to_erase s ! i \<noteq> None) \<and>
     (\<forall>i<NUMBER_TO_ROLLBACK. \<forall>j<NUMBER_TO_ROLLBACK.
        if_rollback s ! i \<and> if_rollback s ! j \<and> to_rollback s ! i = to_rollback s ! j \<longrightarrow> i = j) \<and>
     (\<forall>i<NUMBER_TO_ERASE. \<forall>j<NUMBER_TO_ERASE.
        if_erase s ! i \<and> if_erase s ! j \<and> to_erase s ! i = to_erase s ! j \<longrightarrow> i = j)"

definition staged ::
  "('a::linorder, 'v::linorder) point_type list \<Rightarrow> ('a, 'v) point_type set \<Rightarrow> ('a, 'v) point_type set
     \<Rightarrow> nat set \<Rightarrow> ('a, 'v) FunctionMaxima \<Rightarrow> bool" where
  "staged m0 W T I s \<longleftrightarrow>
     buffers_ok s \<and> slots_ok I s \<and>
     sorted_wrt compare_maxima m0 \<and> sorted_wrt compare_maxima (maxima s) \<and>
     set (maxima s) = set m0 \<union> staged_ins s \<and> staged_ins s \<inter> set m0 = {} \<and>
     staged_del s \<subseteq> set m0 \<and> staged_ins s \<union> staged_del s \<subseteq> T \<and>
     (\<forall>p\<in>T. p \<in> W \<longleftrightarrow> p \<in> (set m0 \<union> staged_ins s) - staged_del s)"

text \<open>
  The outcome of a call with budget \<open>k\<close> that makes at most \<open>c\<close> comparisons: it returns
  in a state that satisfies \<open>Q\<close>, or it throws the exception of the comparison, because
  the budget ran out, in a state that satisfies \<open>E\<close>. In both cases its behaviour is
  defined.
\<close>

definition call_result ::
  "(unit, ('a, 'v) state) outcome \<Rightarrow> nat \<Rightarrow> nat \<Rightarrow> (('a, 'v) FunctionMaxima \<Rightarrow> bool)
     \<Rightarrow> (('a, 'v) FunctionMaxima \<Rightarrow> bool) \<Rightarrow> bool" where
  "call_result out k c Q E \<longleftrightarrow>
     (\<exists>k' s'. out = Return () (k', s') \<and> k' \<le> k \<and> k \<le> k' + c \<and> Q s') \<or>
     (\<exists>s'. out = Throw ComparisonFailure (0, s') \<and> k < c \<and> E s')"

text \<open>
  A step makes the same comparisons whatever the budget, as long as the budget suffices:
  if it returns with budget \<open>k\<close> and leaves \<open>k'\<close>, it has made \<open>k - k'\<close> of them, and
  with every budget of at least \<open>k - k'\<close> it returns the same result in the same state
  and leaves what it did not use.
\<close>

definition uniform :: "('r, 'a, 'v) M \<Rightarrow> bool" where
  "uniform m \<longleftrightarrow>
     (\<forall>k s r k' s'. m (k, s) = Return r (k', s') \<longrightarrow>
        k' \<le> k \<and> (\<forall>j. m (k - k' + j, s) = Return r (j, s')))"

text \<open>
  The state of the object between two calls: no buffer slot is in use, the points ascend
  strictly by argument, the maxima are ordered by \<open>compare_maxima\<close>, and they are the local
  maxima of the points.
\<close>

definition consistent :: "('a::linorder, 'v::linorder) FunctionMaxima \<Rightarrow> bool" where
  "consistent s \<longleftrightarrow>
     buffers_ok s \<and> slots_ok {} s \<and>
     sorted_wrt compare_points (points s) \<and>
     sorted_wrt compare_maxima (maxima s) \<and>
     set (maxima s) = set (local_maxima (points s))"

text \<open>The object after \<open>clear_rollback\<close> and \<open>clear_erase\<close>.\<close>

definition cleared :: "('a, 'v) FunctionMaxima \<Rightarrow> ('a, 'v) FunctionMaxima" where
  "cleared s = s\<lparr>if_rollback := replicate NUMBER_TO_ROLLBACK False, if_erase := replicate NUMBER_TO_ERASE False\<rparr>"

text \<open>
  The points after \<open>set_value(a, v)\<close> and after \<open>erase(a)\<close>, and the function the points
  represent.
\<close>

definition assigned :: "'a::linorder \<Rightarrow> 'v \<Rightarrow> ('a, 'v) point_type list \<Rightarrow> ('a, 'v) point_type list" where
  "assigned a v ps =
     (case points_find ps a of
        End \<Rightarrow> fst (points_insert ps (Point a v))
      | Pos i \<Rightarrow> if v = val (ps ! i) then ps else ps[i := Point a v])"

definition erased :: "'a::linorder \<Rightarrow> ('a, 'v) point_type list \<Rightarrow> ('a, 'v) point_type list" where
  "erased a ps = (case points_find ps a of End \<Rightarrow> ps | Pos i \<Rightarrow> without (Pos i) ps)"

definition function_of :: "('a, 'v) point_type list \<Rightarrow> 'a \<rightharpoonup> 'v" where
  "function_of ps = map_of (map (\<lambda>p. (arg p, val p)) ps)"

section \<open>Concrete states\<close>

text \<open>
  The calls of scenarios A to C of the specification, each with a budget of twenty
  comparisons, and the objects they and some further calls lead to.
\<close>

definition calls_ABC :: "((int, int) call \<times> nat) list" where
  "calls_ABC = [(Set_value 1 1, 20), (Set_value 2 2, 20), (Set_value 3 1, 20)]"

definition state_C :: "(int, int) FunctionMaxima" where
  "state_C =
     \<lparr>points = [Point 1 1, Point 2 2, Point 3 1], maxima = [Point 2 2],
      to_erase = [None, None, None, Some (Point 1 1), None],
      to_rollback = [None, Some (Point 2 2), None, None],
      if_erase = [False, False, False, False, False],
      if_rollback = [False, False, False, False]\<rparr>"

definition state_C4 :: "(int, int) FunctionMaxima" where
  "state_C4 =
     \<lparr>points = [Point 1 1, Point 2 2, Point 3 1, Point 4 5], maxima = [Point 4 5, Point 2 2],
      to_erase = [None, None, None, Some (Point 1 1), None],
      to_rollback = [None, Some (Point 4 5), None, None],
      if_erase = [False, False, False, False, False],
      if_rollback = [False, False, False, False]\<rparr>"

text \<open>
  The object after \<open>set_value(1,1)\<close> alone, and after \<open>erase(1)\<close> then: the erased
  argument is the least one, and the only one.
\<close>

definition calls_A :: "((int, int) call \<times> nat) list" where
  "calls_A = [(Set_value 1 1, 20)]"

definition state_A :: "(int, int) FunctionMaxima" where
  "state_A =
     \<lparr>points = [Point 1 1], maxima = [Point 1 1],
      to_erase = [None, None, None, None, None],
      to_rollback = [None, Some (Point 1 1), None, None],
      if_erase = [False, False, False, False, False],
      if_rollback = [False, False, False, False]\<rparr>"

definition state_A_erased :: "(int, int) FunctionMaxima" where
  "state_A_erased =
     \<lparr>points = [], maxima = [],
      to_erase = [Some (Point 1 1), None, None, None, None],
      to_rollback = [None, Some (Point 1 1), None, None],
      if_erase = [False, False, False, False, False],
      if_rollback = [False, False, False, False]\<rparr>"

text \<open>
  The objects after \<open>erase(1)\<close> and after \<open>set_value(1,5)\<close> in the state of scenario C:
  both calls work on the least argument.
\<close>

definition state_C_erased_1 :: "(int, int) FunctionMaxima" where
  "state_C_erased_1 =
     \<lparr>points = [Point 2 2, Point 3 1], maxima = [Point 2 2],
      to_erase = [None, None, None, Some (Point 1 1), None],
      to_rollback = [None, Some (Point 2 2), None, None],
      if_erase = [False, False, False, False, False],
      if_rollback = [False, False, False, False]\<rparr>"

definition state_C_set_1_5 :: "(int, int) FunctionMaxima" where
  "state_C_set_1_5 =
     \<lparr>points = [Point 1 5, Point 2 2, Point 3 1], maxima = [Point 1 5],
      to_erase = [None, None, Some (Point 2 2), Some (Point 1 1), None],
      to_rollback = [None, Some (Point 1 5), None, None],
      if_erase = [False, False, False, False, False],
      if_rollback = [False, False, False, False]\<rparr>"

text \<open>
  The object in which \<open>set_value(1,5)\<close> leaves the state of scenario C when the ninth and
  last comparison of the call throws: the new maximum \<open>(1,5)\<close> had been inserted and the
  removal of \<open>(2,2)\<close> recorded.
\<close>

definition state_C_thrown :: "(int, int) FunctionMaxima" where
  "state_C_thrown =
     \<lparr>points = [Point 1 1, Point 2 2, Point 3 1], maxima = [Point 2 2],
      to_erase = [None, None, Some (Point 2 2), Some (Point 1 1), None],
      to_rollback = [None, Some (Point 1 5), None, None],
      if_erase = [False, False, False, False, False],
      if_rollback = [False, False, False, False]\<rparr>"

text \<open>
  A longer sequence of calls: after scenarios A to C, \<open>set_value(1,5)\<close> with a comparison
  that throws at its ninth invocation, \<open>erase(1)\<close> of the least argument, and
  \<open>set_value(2,5)\<close>, which gives the least argument a new value.
\<close>

definition calls_ABC_least :: "((int, int) call \<times> nat) list" where
  "calls_ABC_least = calls_ABC @ [(Set_value 1 5, 8), (Erase 1, 20), (Set_value 2 5, 20)]"

definition state_least :: "(int, int) FunctionMaxima" where
  "state_least =
     \<lparr>points = [Point 2 5, Point 3 1], maxima = [Point 2 5],
      to_erase = [None, None, Some (Point 2 2), Some (Point 1 1), Some (Point 2 2)],
      to_rollback = [None, Some (Point 2 5), None, None],
      if_erase = [False, False, False, False, False],
      if_rollback = [False, False, False, False]\<rparr>"

section \<open>Properties of the containers\<close>

subsection \<open>compare_maxima is a strict linear order\<close>

lemma compare_maxima_irrefl: "\<not> compare_maxima p p"
  by (simp add: compare_maxima_def)

lemma compare_maxima_trans: "compare_maxima p q \<Longrightarrow> compare_maxima q r \<Longrightarrow> compare_maxima p r"
  by (auto simp: compare_maxima_def split: if_splits)

lemma compare_maxima_total: "p \<noteq> q \<Longrightarrow> compare_maxima p q \<or> compare_maxima q p"
  by (cases p; cases q) (auto simp: compare_maxima_def)

lemma sorted_maxima_distinct: "sorted_wrt compare_maxima m \<Longrightarrow> distinct m"
  by (induction m) (auto simp: compare_maxima_irrefl)

lemma set_find_sorted:
  "sorted_wrt compare_maxima m \<Longrightarrow> set_find m p = (if p \<in> set m then Some p else None)"
proof (induction m)
  case Nil
  then show ?case by simp
next
  case (Cons q qs)
  show ?case
  proof (cases "compare_maxima q p")
    case True
    then have "p \<noteq> q" using compare_maxima_irrefl by auto
    with True Cons show ?thesis by simp
  next
    case False
    show ?thesis
    proof (cases "compare_maxima p q")
      case True
      have "p \<notin> set qs"
      proof
        assume "p \<in> set qs"
        with Cons.prems have "compare_maxima q p" by simp
        with False show False by simp
      qed
      moreover have "p \<noteq> q" using True compare_maxima_irrefl by auto
      ultimately show ?thesis using True False by simp
    next
      case nlt: False
      with False have "p = q" using compare_maxima_total by blast
      with False show ?thesis by (simp add: compare_maxima_irrefl)
    qed
  qed
qed

lemma set_insert_sorted:
  "sorted_wrt compare_maxima m \<Longrightarrow> p \<notin> set m \<Longrightarrow>
   snd (set_insert m p) = Some p \<and> set (fst (set_insert m p)) = insert p (set m)
     \<and> sorted_wrt compare_maxima (fst (set_insert m p))"
proof (induction m)
  case Nil
  then show ?case by simp
next
  case (Cons q qs)
  then have ne: "p \<noteq> q" and nin: "p \<notin> set qs" and sq: "sorted_wrt compare_maxima qs"
    and hd: "\<forall>r\<in>set qs. compare_maxima q r" by auto
  show ?case
  proof (cases "compare_maxima q p")
    case True
    from Cons.IH [OF sq nin] True hd show ?thesis
      by (auto simp: split_beta)
  next
    case False
    with ne have pq: "compare_maxima p q" using compare_maxima_total by blast
    with hd have "\<forall>r\<in>set qs. compare_maxima p r" using compare_maxima_trans by blast
    with False pq sq hd show ?thesis by auto
  qed
qed

lemma sorted_wrt_remove1: "sorted_wrt R m \<Longrightarrow> sorted_wrt R (remove1 q m)"
  by (induction m) (auto dest: notin_set_remove1)

lemma sorted_wrt_filter_any: "sorted_wrt R m \<Longrightarrow> sorted_wrt R (filter P m)"
  by (induction m) auto

lemma sorted_maxima_unique:
  "sorted_wrt compare_maxima xs \<Longrightarrow> sorted_wrt compare_maxima ys \<Longrightarrow> set xs = set ys \<Longrightarrow> xs = ys"
proof (induction xs arbitrary: ys)
  case Nil
  then show ?case by simp
next
  case (Cons x xs)
  then obtain y ys' where ys: "ys = y # ys'" by (cases ys) auto
  have xy: "x = y"
  proof (rule ccontr)
    assume "x \<noteq> y"
    with Cons.prems ys have "x \<in> set ys'" "y \<in> set xs" by auto
    with Cons.prems ys have "compare_maxima y x" "compare_maxima x y" by auto
    then show False using compare_maxima_trans compare_maxima_irrefl by blast
  qed
  have "x \<notin> set xs" "y \<notin> set ys'"
    using Cons.prems ys sorted_maxima_distinct [of "x # xs"] sorted_maxima_distinct [of "y # ys'"] by auto
  with Cons.prems ys xy have "set xs = set ys'" by auto
  with Cons ys xy show ?case by auto
qed

lemma sorted_points_distinct: "sorted_wrt compare_points ps \<Longrightarrow> distinct ps"
  by (induction ps) (auto simp: compare_points_def)

lemma sorted_points_nth_less:
  "sorted_wrt compare_points ps \<Longrightarrow> i < j \<Longrightarrow> j < length ps \<Longrightarrow> arg (ps ! i) < arg (ps ! j)"
  by (simp add: sorted_wrt_iff_nth_less compare_points_def)

lemma points_find_Pos:
  assumes "points_find ps a = Pos i"
  shows "i < length ps \<and> arg (ps ! i) = a \<and> i = length (takeWhile (\<lambda>q. arg q < a) ps)"
proof -
  let ?i = "length (takeWhile (\<lambda>q. arg q < a) ps)"
  from assms have i: "i = ?i" "?i < length ps" "\<not> a < arg (ps ! ?i)"
    by (auto simp: points_find_def Let_def split: if_splits)
  from i(2) have "\<not> arg (ps ! ?i) < a" by (rule nth_length_takeWhile)
  with i show ?thesis by auto
qed

lemma takeWhile_sorted_below:
  assumes s: "sorted_wrt compare_points ps" and i: "i < length ps" and a: "arg (ps ! i) = a"
  shows "length (takeWhile (\<lambda>q. arg q < a) ps) = i"
proof -
  have ps: "ps = take i ps @ ps ! i # drop (Suc i) ps" using i by (rule id_take_nth_drop)
  have low: "\<forall>q\<in>set (take i ps). arg q < a"
  proof
    fix q assume "q \<in> set (take i ps)"
    then obtain n where "n < i" "q = ps ! n" using i by (auto simp: in_set_conv_nth)
    with s i a show "arg q < a" using sorted_points_nth_less by blast
  qed
  have "takeWhile (\<lambda>q. arg q < a) ps = takeWhile (\<lambda>q. arg q < a) (take i ps @ ps ! i # drop (Suc i) ps)"
    using ps by simp
  also have "\<dots> = take i ps" using low a by (simp add: takeWhile_append2)
  finally show ?thesis using i by simp
qed

lemma takeWhile_sorted_upto:
  assumes s: "sorted_wrt compare_points ps" and i: "i < length ps" and a: "arg (ps ! i) = a"
  shows "length (takeWhile (\<lambda>q. \<not> a < arg q) ps) = Suc i"
proof -
  have ps: "ps = take (Suc i) ps @ drop (Suc i) ps" by simp
  have low: "\<forall>q\<in>set (take (Suc i) ps). \<not> a < arg q"
  proof
    fix q assume "q \<in> set (take (Suc i) ps)"
    then obtain n where n: "n < Suc i" "q = ps ! n" using i by (auto simp: in_set_conv_nth)
    show "\<not> a < arg q"
    proof (cases "n = i")
      case True
      with n a show ?thesis by simp
    next
      case False
      with n have "n < i" by simp
      with s i a n have "arg q < a" using sorted_points_nth_less by blast
      then show ?thesis by simp
    qed
  qed
  have high: "takeWhile (\<lambda>q. \<not> a < arg q) (drop (Suc i) ps) = []"
  proof (cases "Suc i < length ps")
    case True
    then have "drop (Suc i) ps = ps ! Suc i # drop (Suc (Suc i)) ps" by (simp add: Cons_nth_drop_Suc)
    moreover from s True a have "a < arg (ps ! Suc i)" using sorted_points_nth_less [of ps i "Suc i"] by simp
    ultimately show ?thesis by simp
  next
    case False
    then show ?thesis by simp
  qed
  have "takeWhile (\<lambda>q. \<not> a < arg q) ps = takeWhile (\<lambda>q. \<not> a < arg q) (take (Suc i) ps @ drop (Suc i) ps)"
    by simp
  also have "\<dots> = take (Suc i) ps" using low high by (simp add: takeWhile_append2 del: append_take_drop_id)
  finally show ?thesis using i by simp
qed

lemma points_find_present:
  assumes "sorted_wrt compare_points ps" "i < length ps"
  shows "points_find ps (arg (ps ! i)) = Pos i"
  using assms takeWhile_sorted_below [OF assms refl]
  by (simp add: points_find_def)

lemma points_find_End:
  assumes "sorted_wrt compare_points ps"
  shows "points_find ps a = End \<longleftrightarrow> a \<notin> arg ` set ps"
proof
  assume e: "points_find ps a = End"
  show "a \<notin> arg ` set ps"
  proof
    assume "a \<in> arg ` set ps"
    then obtain i where "i < length ps" "arg (ps ! i) = a" by (auto simp: in_set_conv_nth)
    with assms have "points_find ps a = Pos i" using points_find_present by blast
    with e show False by simp
  qed
next
  assume n: "a \<notin> arg ` set ps"
  show "points_find ps a = End"
  proof (cases "points_find ps a")
    case (Pos i)
    from points_find_Pos [OF this] n show ?thesis by auto
  next
    case End
    then show ?thesis .
  qed
qed

text \<open>Insertion of a point whose argument is new keeps the points ascending.\<close>

lemma points_insert_absent:
  assumes s: "sorted_wrt compare_points ps" and n: "arg p \<notin> arg ` set ps"
  shows "\<exists>j. points_insert ps p = (take j ps @ p # drop j ps, Pos j) \<and> j \<le> length ps \<and>
             sorted_wrt compare_points (take j ps @ p # drop j ps)"
proof -
  define P where "P = (\<lambda>q. \<not> compare_points p q)"
  define j where "j = length (takeWhile P ps)"
  have t: "take j ps = takeWhile P ps" unfolding j_def by (rule takeWhile_eq_take [symmetric])
  have d: "drop j ps = dropWhile P ps" unfolding j_def by (rule dropWhile_eq_drop [symmetric])
  have low: "compare_points q p" if q: "q \<in> set (take j ps)" for q
  proof -
    from q have "P q" unfolding t by (rule set_takeWhileD [THEN conjunct2])
    then have "\<not> arg p < arg q" by (simp add: P_def compare_points_def)
    moreover from q have "q \<in> set ps" by (rule in_set_takeD)
    then have "arg q \<in> arg ` set ps" by (rule imageI)
    with n have "arg q \<noteq> arg p" by metis
    ultimately show "compare_points q p" by (simp add: compare_points_def)
  qed
  from s have sd: "sorted_wrt compare_points (drop j ps)" by (rule sorted_wrt_drop)
  from s have st: "sorted_wrt compare_points (take j ps)" by (rule sorted_wrt_take)
  have high: "compare_points p q" if q: "q \<in> set (drop j ps)" for q
  proof (cases "dropWhile P ps")
    case Nil
    with q show ?thesis unfolding d by simp
  next
    case (Cons x xs)
    then have "\<not> P x" by (simp add: dropWhile_eq_Cons_conv)
    then have x: "arg p < arg x" by (simp add: P_def compare_points_def)
    from sd have "sorted_wrt compare_points (x # xs)" unfolding d Cons .
    then have xs: "\<forall>r\<in>set xs. arg x < arg r" by (simp add: compare_points_def)
    from q have "q = x \<or> q \<in> set xs" unfolding d Cons by simp
    with x xs show ?thesis by (auto simp: compare_points_def)
  qed
  have cross: "compare_points q r" if "q \<in> set (take j ps)" "r \<in> set (drop j ps)" for q r
    using low [OF that(1)] high [OF that(2)] by (simp add: compare_points_def)
  have "sorted_wrt compare_points (take j ps @ p # drop j ps)"
    using st sd low high cross by (auto simp: sorted_wrt_append)
  moreover have "j \<le> length ps" unfolding j_def by (rule length_takeWhile_le)
  moreover have "points_insert ps p = (take j ps @ p # drop j ps, Pos j)"
    by (simp add: points_insert_def j_def P_def Let_def)
  ultimately show ?thesis by blast
qed

lemma points_insert_present:
  assumes s: "sorted_wrt compare_points ps" and i: "i < length ps" and a: "arg (ps ! i) = arg p"
  shows "points_insert ps p = (take (Suc i) ps @ p # drop (Suc i) ps, Pos (Suc i))"
  using takeWhile_sorted_upto [OF s i a]
  by (simp add: points_insert_def compare_points_def)

lemma sorted_points_update:
  assumes s: "sorted_wrt compare_points ps" and i: "i < length ps" and a: "arg (ps ! i) = arg p"
  shows "sorted_wrt compare_points (ps[i := p])"
proof -
  have "arg (ps[i := p] ! m) = arg (ps ! m)" if "m < length ps" for m
    using that a by (cases "m = i") simp_all
  with s show ?thesis
    unfolding sorted_wrt_iff_nth_less compare_points_def by simp
qed

lemma sorted_points_without:
  assumes "sorted_wrt compare_points ps"
  shows "sorted_wrt compare_points (without it ps)"
proof (cases it)
  case (Pos j)
  from assms have "sorted_wrt compare_points (take j ps @ drop j ps)" by simp
  then have c: "\<forall>x\<in>set (take j ps). \<forall>y\<in>set (drop j ps). compare_points x y"
    unfolding sorted_wrt_append by simp
  have "set (drop (Suc j) ps) \<subseteq> set (drop j ps)" by (rule set_drop_subset_set_drop) simp
  with c have "\<forall>x\<in>set (take j ps). \<forall>y\<in>set (drop (Suc j) ps). compare_points x y" by blast
  moreover from assms have "sorted_wrt compare_points (take j ps)" by (rule sorted_wrt_take)
  moreover from assms have "sorted_wrt compare_points (drop (Suc j) ps)" by (rule sorted_wrt_drop)
  ultimately show ?thesis using Pos by (simp add: sorted_wrt_append)
next
  case End
  with assms show ?thesis by simp
qed

subsection \<open>Neighbours and skipped points\<close>

lemma local_maximum_iff:
  "local_maximum ps i \<longleftrightarrow>
     (i = 0 \<or> \<not> val (ps ! i) < val (ps ! (i - 1))) \<and>
     (Suc i \<ge> length ps \<or> \<not> val (ps ! i) < val (ps ! Suc i))"
  by (auto simp: local_maximum_def left_neighbour_def right_neighbour_def)

lemma set_local_maxima:
  "set (local_maxima ps) = {ps ! i | i. i < length ps \<and> local_maximum ps i}"
  by (auto simp: local_maxima_def)

lemma without_nth:
  "valid_skip qs i previous \<Longrightarrow>
   index_without previous i < length (without previous qs) \<and>
   without previous qs ! index_without previous i = qs ! i"
  by (cases previous) (auto simp: valid_skip_def nth_append)

lemma multi_is_beginning_eq:
  "valid_skip qs i previous \<Longrightarrow>
   multi_is_beginning qs (Pos i) previous = Some (index_without previous i = 0)"
  by (cases previous) (auto simp: valid_skip_def multi_is_beginning_def it_begin_def)

lemma multi_prev_eq:
  "valid_skip qs i previous \<Longrightarrow> index_without previous i \<noteq> 0 \<Longrightarrow>
   \<exists>n. multi_prev qs (Pos i) previous = Some (Pos n) \<and> n < length qs \<and>
       qs ! n = without previous qs ! (index_without previous i - 1)"
  by (cases previous) (auto simp: valid_skip_def multi_prev_def nth_append split: if_splits)

lemma multi_is_ending_eq:
  "valid_skip qs i previous \<Longrightarrow>
   multi_is_ending qs (Pos i) previous =
     Some (Suc (index_without previous i) = length (without previous qs))"
  by (cases previous) (auto simp: valid_skip_def multi_is_ending_def)

lemma multi_next_eq:
  "valid_skip qs i previous \<Longrightarrow> Suc (index_without previous i) \<noteq> length (without previous qs) \<Longrightarrow>
   \<exists>n. multi_next qs (Pos i) previous = Some (Pos n) \<and> n < length qs \<and>
       qs ! n = without previous qs ! Suc (index_without previous i)"
  by (cases previous) (auto simp: valid_skip_def multi_next_def nth_append split: if_splits)

lemma without_Pos_nth:
  "j < length L \<Longrightarrow> i < length L - 1 \<Longrightarrow> without (Pos j) L ! i = (if i < j then L ! i else L ! Suc i)"
  by (auto simp: nth_append min_def)

lemma length_without_Pos: "j < length L \<Longrightarrow> length (without (Pos j) L) = length L - 1"
  by auto

lemma local_maximum_without_low:
  assumes "j < length L" "Suc i < j"
  shows "local_maximum (without (Pos j) L) i \<longleftrightarrow> local_maximum L i"
proof -
  from assms have "i < length L - 1" "Suc i < length L - 1" "i - 1 < length L - 1" "i - 1 < j" "i < j" by auto
  with assms show ?thesis
    unfolding local_maximum_iff length_without_Pos [OF assms(1)]
    by (simp add: without_Pos_nth [OF assms(1)] del: without.simps)
qed

lemma local_maximum_without_high:
  assumes "j < length L" "j < i" "Suc i < length L"
  shows "local_maximum (without (Pos j) L) i \<longleftrightarrow> local_maximum L (Suc i)"
proof -
  from assms have "i < length L - 1" "i - 1 < length L - 1" "\<not> i < j" "\<not> i - 1 < j" "i \<noteq> 0" "Suc (i - 1) = i" by auto
  moreover have "Suc i < length L - 1 \<Longrightarrow> without (Pos j) L ! Suc i = L ! Suc (Suc i)"
    using assms by (simp add: without_Pos_nth [OF assms(1)] del: without.simps)
  ultimately show ?thesis
    using assms unfolding local_maximum_iff length_without_Pos [OF assms(1)]
    by (auto simp: without_Pos_nth [OF assms(1)] simp del: without.simps)
qed

lemma local_maxima_without:
  assumes j: "j < length L" and p: "p \<noteq> L ! j" "0 < j \<Longrightarrow> p \<noteq> L ! (j - 1)" "Suc j < length L \<Longrightarrow> p \<noteq> L ! Suc j"
  shows "p \<in> set (local_maxima L) \<longleftrightarrow> p \<in> set (local_maxima (without (Pos j) L))"
proof
  assume "p \<in> set (local_maxima L)"
  then obtain i where i: "i < length L" "L ! i = p" "local_maximum L i"
    by (auto simp: set_local_maxima)
  with p have ne: "i \<noteq> j" "i \<noteq> j - 1 \<or> j = 0" "i \<noteq> Suc j" by auto
  show "p \<in> set (local_maxima (without (Pos j) L))"
  proof (cases "i < j")
    case True
    with ne have "Suc i < j" by arith
    with j i have "local_maximum (without (Pos j) L) i" "without (Pos j) L ! i = p" "i < length (without (Pos j) L)"
      by (simp_all add: local_maximum_without_low without_Pos_nth length_without_Pos del: without.simps)
    then show ?thesis unfolding set_local_maxima by blast
  next
    case False
    with ne have gt: "Suc j < i" by arith
    then obtain i' where i': "i = Suc i'" "j < i'" by (cases i) auto
    with j i have "local_maximum (without (Pos j) L) i'" "without (Pos j) L ! i' = p" "i' < length (without (Pos j) L)"
      by (simp_all add: local_maximum_without_high without_Pos_nth length_without_Pos del: without.simps)
    then show ?thesis unfolding set_local_maxima by blast
  qed
next
  assume "p \<in> set (local_maxima (without (Pos j) L))"
  then obtain i where i: "i < length L - 1" "without (Pos j) L ! i = p" "local_maximum (without (Pos j) L) i"
    unfolding set_local_maxima length_without_Pos [OF j] by auto
  show "p \<in> set (local_maxima L)"
  proof (cases "i < j")
    case True
    with i j have eq: "L ! i = p" by (simp add: without_Pos_nth del: without.simps)
    have "Suc i \<noteq> j"
    proof
      assume "Suc i = j"
      with eq p(2) show False by auto
    qed
    with True have "Suc i < j" by simp
    with j i eq have "local_maximum L i" "i < length L" by (simp_all add: local_maximum_without_low del: without.simps)
    with eq show ?thesis unfolding set_local_maxima by blast
  next
    case False
    with i j have eq: "L ! Suc i = p" by (simp add: without_Pos_nth del: without.simps)
    have "i \<noteq> j"
    proof
      assume "i = j"
      with eq i have "L ! Suc j = p" "Suc j < length L" by auto
      with p(3) show False by simp
    qed
    with False have "j < i" by simp
    with j i eq have "local_maximum L (Suc i)" "Suc i < length L" by (simp_all add: local_maximum_without_high del: without.simps)
    with eq show ?thesis unfolding set_local_maxima by blast
  qed
qed

lemma local_maximum_member:
  "distinct ps \<Longrightarrow> i < length ps \<Longrightarrow> ps ! i \<in> set (local_maxima ps) \<longleftrightarrow> local_maximum ps i"
  by (auto simp: set_local_maxima nth_eq_iff_index_eq)

lemma local_maxima_subset: "set (local_maxima ps) \<subseteq> set ps"
  by (auto simp: set_local_maxima)

section \<open>Properties of the member functions\<close>

lemma returnM_apply [simp]: "returnM x st = Return x st"
  by (simp add: returnM_def)

lemma getsM_apply [simp]: "getsM f (k, s) = Return (f s) (k, s)"
  by (simp add: getsM_def)

lemma modifyM_apply [simp]: "modifyM f (k, s) = Return () (k, f s)"
  by (simp add: modifyM_def)

lemma via_points_apply [simp]:
  "via_points f (k, s) = (case f (points s) of None \<Rightarrow> Undefined | Some r \<Rightarrow> Return r (k, s))"
  by (simp add: via_points_def)

lemma bindM_Return [simp]: "m st = Return x st' \<Longrightarrow> bindM m f st = f x st'"
  by (simp add: bindM_def)

lemma bindM_Throw [simp]: "m st = Throw e st' \<Longrightarrow> bindM m f st = Throw e st'"
  by (simp add: bindM_def)

lemma bindM_Undefined [simp]: "m st = Undefined \<Longrightarrow> bindM m f st = Undefined"
  by (simp add: bindM_def)

lemma less_V_apply:
  "less_V x y (k, s) = (if k = 0 then Throw ComparisonFailure (0, s) else Return (x < y) (k - 1, s))"
  by (simp add: less_V_def)

lemma mx_find_apply:
  "mx_find p (k, s) = (if k = 0 then Throw ComparisonFailure (0, s) else Return (set_find (maxima s) p) (k - 1, s))"
  by (simp add: mx_find_def)

lemma mx_insert_apply:
  "mx_insert p (k, s) = (if k = 0 then Throw ComparisonFailure (0, s)
     else Return (snd (set_insert (maxima s) p)) (k - 1, s\<lparr>maxima := fst (set_insert (maxima s) p)\<rparr>))"
  by (simp add: mx_insert_def split_beta)

lemma step_result_bind:
  assumes "step_result (m (k, s)) k c r s1 s"
    and "\<And>k'. k' \<le> k \<Longrightarrow> k \<le> k' + c \<Longrightarrow> step_result (f r (k', s1)) k' d q s2 s"
  shows "step_result (bindM m f (k, s)) k (c + d) q s2 s"
  using assms unfolding step_result_def
  by (fastforce simp: bindM_def)

lemma greater_than_prev_result:
  assumes "valid_skip (points s) i previous"
  shows "step_result (greater_than_prev (Pos i) previous (k, s)) k 1
           (index_without previous i = 0 \<or>
            \<not> val (without previous (points s) ! index_without previous i)
                < val (without previous (points s) ! (index_without previous i - 1))) s s"
proof (cases "index_without previous i = 0")
  case True
  with assms show ?thesis
    by (simp add: greater_than_prev_def multi_is_beginning_eq step_result_def)
next
  case False
  from multi_prev_eq [OF assms False] obtain n where
    n: "multi_prev (points s) (Pos i) previous = Some (Pos n)" "n < length (points s)"
       "points s ! n = without previous (points s) ! (index_without previous i - 1)" by blast
  from assms have i: "i < length (points s)" by (simp add: valid_skip_def)
  from without_nth [OF assms] have e: "without previous (points s) ! index_without previous i = points s ! i" by simp
  show ?thesis
    using False n i e assms
    by (auto simp: greater_than_prev_def multi_is_beginning_eq step_result_def less_V_apply bindM_def)
qed

lemma greater_than_next_result:
  assumes "valid_skip (points s) i previous"
  shows "step_result (greater_than_next (Pos i) previous (k, s)) k 1
           (Suc (index_without previous i) = length (without previous (points s)) \<or>
            \<not> val (without previous (points s) ! index_without previous i)
                < val (without previous (points s) ! Suc (index_without previous i))) s s"
proof (cases "Suc (index_without previous i) = length (without previous (points s))")
  case True
  with assms show ?thesis
    by (simp add: greater_than_next_def multi_is_ending_eq step_result_def)
next
  case False
  from multi_next_eq [OF assms False] obtain n where
    n: "multi_next (points s) (Pos i) previous = Some (Pos n)" "n < length (points s)"
       "points s ! n = without previous (points s) ! Suc (index_without previous i)" by blast
  from assms have i: "i < length (points s)" by (simp add: valid_skip_def)
  from without_nth [OF assms] have e: "without previous (points s) ! index_without previous i = points s ! i" by simp
  show ?thesis
    using False n i e assms
    by (auto simp: greater_than_next_def multi_is_ending_eq step_result_def less_V_apply bindM_def)
qed

lemma step_result_returnM: "step_result (returnM x (k, s)) k c x s s'"
  by (simp add: step_result_def)

lemma is_maximum_result:
  assumes "valid_skip (points s) i previous"
  shows "step_result (is_maximum (Pos i) previous (k, s)) k 2
           (local_maximum (without previous (points s)) (index_without previous i)) s s"
proof -
  let ?E = "without previous (points s)" and ?i = "index_without previous i"
  let ?g = "?i = 0 \<or> \<not> val (?E ! ?i) < val (?E ! (?i - 1))"
  let ?h = "Suc ?i = length ?E \<or> \<not> val (?E ! ?i) < val (?E ! Suc ?i)"
  from without_nth [OF assms] have "?i < length ?E" by simp
  then have "length ?E \<le> Suc ?i \<longleftrightarrow> Suc ?i = length ?E" by arith
  then have lm: "local_maximum ?E ?i \<longleftrightarrow> ?g \<and> ?h"
    unfolding local_maximum_iff by simp
  have "step_result (is_maximum (Pos i) previous (k, s)) k (1 + 1) (?g \<and> ?h) s s"
    unfolding is_maximum_def
  proof (rule step_result_bind [where m = "greater_than_prev (Pos i) previous" and r = ?g and ?s1.0 = s])
    show "step_result (greater_than_prev (Pos i) previous (k, s)) k 1 ?g s s"
      by (rule greater_than_prev_result [OF assms])
  next
    fix k' assume "k' \<le> k"
    show "step_result ((if ?g then greater_than_next (Pos i) previous else returnM False) (k', s)) k' 1 (?g \<and> ?h) s s"
    proof (cases ?g)
      case True
      then show ?thesis using greater_than_next_result [OF assms, of k'] by simp
    next
      case False
      then show ?thesis by (simp add: step_result_def)
    qed
  qed
  with lm show ?thesis by (simp add: numeral_2_eq_2)
qed

lemma present_in_maxima_set_apply:
  "sorted_wrt compare_maxima (maxima s) \<Longrightarrow>
   present_in_maxima_set p (k, s) =
     (if k = 0 then Throw ComparisonFailure (0, s) else Return (p \<in> set (maxima s)) (k - 1, s))"
  by (simp add: present_in_maxima_set_def mx_find_apply set_find_sorted bindM_def)

lemma conditional_add_result:
  assumes v: "valid_skip (points s) i previous" and m: "sorted_wrt compare_maxima (maxima s)"
  shows "step_result (conditional_add_new_maximum (Pos i) slot previous (k, s)) k 4 ()
           (staged_result s slot (points s ! i)
              (local_maximum (without previous (points s)) (index_without previous i))) s"
proof -
  let ?b = "local_maximum (without previous (points s)) (index_without previous i)"
  let ?p = "points s ! i"
  from v have ne: "Pos i \<noteq> previous" and i: "i < length (points s)"
    by (auto simp: valid_skip_def)
  from is_maximum_result [OF v, of k]
  consider (ret) k1 where "is_maximum (Pos i) previous (k, s) = Return ?b (k1, s)" "k1 \<le> k" "k \<le> k1 + 2"
    | (thr) "is_maximum (Pos i) previous (k, s) = Throw ComparisonFailure (0, s)" "k < 2"
    unfolding step_result_def by blast
  then show ?thesis
  proof cases
    case thr
    with ne show ?thesis
      by (simp add: conditional_add_new_maximum_def step_result_def)
  next
    case ret
    have ins: "?p \<notin> set (maxima s) \<Longrightarrow> snd (set_insert (maxima s) ?p) = Some ?p"
      using set_insert_sorted [OF m] by blast
    show ?thesis
    proof (cases "k1 = 0")
      case True
      with ret ne i m show ?thesis
        by (simp add: conditional_add_new_maximum_def step_result_def present_in_maxima_set_apply)
    next
      case k1: False
      show ?thesis
      proof (cases "?p \<in> set (maxima s)")
        case True
        with ret ne i m k1 show ?thesis
          by (auto simp: conditional_add_new_maximum_def step_result_def present_in_maxima_set_apply
                staged_result_def mx_find_apply set_find_sorted bindM_def)
      next
        case False
        with ret ne i m k1 ins show ?thesis
          by (auto simp: conditional_add_new_maximum_def step_result_def present_in_maxima_set_apply
                staged_result_def mx_insert_apply bindM_def)
      qed
    qed
  qed
qed

text \<open>
  The two iterators that a decrement of \<open>begin()\<close> can yield are both passed over.
\<close>

lemma before_begin_is_ignored:
  "conditional_add_new_maximum End i previous = returnM ()"
  "conditional_add_new_maximum previous i previous = returnM ()"
  by (simp_all add: conditional_add_new_maximum_def)

lemma decrement_of_begin:
  "ps \<noteq> [] \<Longrightarrow> std_prev ps (Pos 0) = Some End"
  "Suc 0 < length ps \<Longrightarrow> multi_prev ps (Pos (Suc 0)) (Pos 0) = Some End"
  by (auto simp: multi_prev_def)

subsection \<open>Staging in the buffers\<close>

lemma staged_ins_update:
  assumes "buffers_ok s" "slot < NUMBER_TO_ROLLBACK" "\<not> if_rollback s ! slot"
  shows "staged_ins (s\<lparr>maxima := m, to_rollback := (to_rollback s)[slot := Some p],
                        if_rollback := (if_rollback s)[slot := True]\<rparr>) = insert p (staged_ins s)"
  using assms unfolding staged_ins_def buffers_ok_def
  by (auto simp: nth_list_update)

lemma staged_del_update:
  assumes "buffers_ok s" "slot < NUMBER_TO_ERASE" "\<not> if_erase s ! slot"
  shows "staged_del (s\<lparr>to_erase := (to_erase s)[slot := Some p],
                        if_erase := (if_erase s)[slot := True]\<rparr>) = insert p (staged_del s)"
  using assms unfolding staged_del_def buffers_ok_def
  by (auto simp: nth_list_update)

lemma staged_ins_other [simp]:
  "staged_ins (s\<lparr>to_erase := te, if_erase := ie\<rparr>) = staged_ins s"
  "staged_ins (s\<lparr>points := ps\<rparr>) = staged_ins s"
  by (simp_all add: staged_ins_def)

lemma staged_del_other [simp]:
  "staged_del (s\<lparr>maxima := m, to_rollback := tr, if_rollback := ir\<rparr>) = staged_del s"
  "staged_del (s\<lparr>points := ps\<rparr>) = staged_del s"
  by (simp_all add: staged_del_def)

lemma slots_ok_ins:
  assumes bo: "buffers_ok s" and so: "slots_ok I s" and sl: "slot < NUMBER_TO_ROLLBACK"
    and "slot \<notin> I" and pn: "p \<notin> staged_ins s"
  shows "slots_ok (insert slot I) (s\<lparr>maxima := m, to_rollback := (to_rollback s)[slot := Some p],
                        if_rollback := (if_rollback s)[slot := True]\<rparr>)"
proof -
  let ?tr = "(to_rollback s)[slot := Some p]" and ?ir = "(if_rollback s)[slot := True]"
  from bo sl have len: "slot < length (to_rollback s)" "slot < length (if_rollback s)"
    by (simp_all add: buffers_ok_def)
  have a: "i \<in> insert slot I \<and> ?tr ! i \<noteq> None" if "i < NUMBER_TO_ROLLBACK" "?ir ! i" for i
  proof (cases "i = slot")
    case True
    with len show ?thesis by simp
  next
    case False
    with that so show ?thesis by (simp add: slots_ok_def)
  qed
  have b: "i \<in> insert slot I \<and> to_erase s ! i \<noteq> None" if "i < NUMBER_TO_ERASE" "if_erase s ! i" for i
    using that so by (simp add: slots_ok_def)
  have old: "?tr ! j \<noteq> Some p" if "j < NUMBER_TO_ROLLBACK" "j \<noteq> slot" "if_rollback s ! j" for j
    using that pn by (auto simp: staged_ins_def)
  have c: "i = j" if "i < NUMBER_TO_ROLLBACK" "j < NUMBER_TO_ROLLBACK" "?ir ! i" "?ir ! j" "?tr ! i = ?tr ! j" for i j
  proof (cases "i = slot")
    case True
    show ?thesis
    proof (rule ccontr)
      assume "i \<noteq> j"
      with True that len old [of j] show False by simp
    qed
  next
    case False
    show ?thesis
    proof (cases "j = slot")
      case True
      with False that len old [of i] show ?thesis by simp
    next
      case jf: False
      with False that so show ?thesis by (simp add: slots_ok_def)
    qed
  qed
  have d: "i = j" if "i < NUMBER_TO_ERASE" "j < NUMBER_TO_ERASE" "if_erase s ! i" "if_erase s ! j"
      "to_erase s ! i = to_erase s ! j" for i j
    using that so by (simp add: slots_ok_def)
  show ?thesis
    unfolding slots_ok_def using a b c d by simp
qed

lemma slots_ok_del:
  assumes bo: "buffers_ok s" and so: "slots_ok I s" and sl: "slot < NUMBER_TO_ERASE"
    and "slot \<notin> I" and pn: "p \<notin> staged_del s"
  shows "slots_ok (insert slot I) (s\<lparr>to_erase := (to_erase s)[slot := Some p],
                        if_erase := (if_erase s)[slot := True]\<rparr>)"
proof -
  let ?tr = "(to_erase s)[slot := Some p]" and ?ir = "(if_erase s)[slot := True]"
  from bo sl have len: "slot < length (to_erase s)" "slot < length (if_erase s)"
    by (simp_all add: buffers_ok_def)
  have a: "i \<in> insert slot I \<and> ?tr ! i \<noteq> None" if "i < NUMBER_TO_ERASE" "?ir ! i" for i
  proof (cases "i = slot")
    case True
    with len show ?thesis by simp
  next
    case False
    with that so show ?thesis by (simp add: slots_ok_def)
  qed
  have b: "i \<in> insert slot I \<and> to_rollback s ! i \<noteq> None" if "i < NUMBER_TO_ROLLBACK" "if_rollback s ! i" for i
    using that so by (simp add: slots_ok_def)
  have old: "?tr ! j \<noteq> Some p" if "j < NUMBER_TO_ERASE" "j \<noteq> slot" "if_erase s ! j" for j
    using that pn by (auto simp: staged_del_def)
  have c: "i = j" if "i < NUMBER_TO_ERASE" "j < NUMBER_TO_ERASE" "?ir ! i" "?ir ! j" "?tr ! i = ?tr ! j" for i j
  proof (cases "i = slot")
    case True
    show ?thesis
    proof (rule ccontr)
      assume "i \<noteq> j"
      with True that len old [of j] show False by simp
    qed
  next
    case False
    show ?thesis
    proof (cases "j = slot")
      case True
      with False that len old [of i] show ?thesis by simp
    next
      case jf: False
      with False that so show ?thesis by (simp add: slots_ok_def)
    qed
  qed
  have d: "i = j" if "i < NUMBER_TO_ROLLBACK" "j < NUMBER_TO_ROLLBACK" "if_rollback s ! i" "if_rollback s ! j"
      "to_rollback s ! i = to_rollback s ! j" for i j
    using that so by (simp add: slots_ok_def)
  show ?thesis
    unfolding slots_ok_def using a b c d by simp
qed

lemma slots_ok_mono: "slots_ok I s \<Longrightarrow> I \<subseteq> J \<Longrightarrow> slots_ok J s"
  unfolding slots_ok_def by blast

lemma stagedI:
  assumes "buffers_ok s" "slots_ok I s" "sorted_wrt compare_maxima m0"
    "sorted_wrt compare_maxima (maxima s)" "set (maxima s) = set m0 \<union> staged_ins s"
    "staged_ins s \<inter> set m0 = {}" "staged_del s \<subseteq> set m0" "staged_ins s \<union> staged_del s \<subseteq> T"
    "\<And>q. q \<in> T \<Longrightarrow> q \<in> W \<longleftrightarrow> q \<in> (set m0 \<union> staged_ins s) - staged_del s"
  shows "staged m0 W T I s"
  unfolding staged_def using assms by simp

lemma staged_step:
  assumes st: "staged m0 W T I s" and p: "p \<notin> T" and slot: "slot \<notin> I" "slot < NUMBER_TO_ERASE"
    "b \<Longrightarrow> slot < NUMBER_TO_ROLLBACK" and b: "b \<longleftrightarrow> p \<in> W"
  shows "staged m0 W (insert p T) (insert slot I) (staged_result s slot p b)"
proof -
  from st have bo: "buffers_ok s" and so: "slots_ok I s" and sm: "sorted_wrt compare_maxima (maxima s)"
    and s0: "sorted_wrt compare_maxima m0"
    and e: "set (maxima s) = set m0 \<union> staged_ins s" and dj: "staged_ins s \<inter> set m0 = {}"
    and dl: "staged_del s \<subseteq> set m0" and sub: "staged_ins s \<union> staged_del s \<subseteq> T"
    and w: "\<forall>p\<in>T. p \<in> W \<longleftrightarrow> p \<in> (set m0 \<union> staged_ins s) - staged_del s"
    by (simp_all add: staged_def)
  from sub p have pn: "p \<notin> staged_ins s" "p \<notin> staged_del s" by auto
  from so slot have free: "slot < NUMBER_TO_ROLLBACK \<Longrightarrow> \<not> if_rollback s ! slot" "\<not> if_erase s ! slot"
    by (auto simp: slots_ok_def)
  consider (keep) "b \<longleftrightarrow> p \<in> set (maxima s)" | (ins) "b" "p \<notin> set (maxima s)" | (del) "\<not> b" "p \<in> set (maxima s)"
    by blast
  then show ?thesis
  proof cases
    case keep
    then have r: "staged_result s slot p b = s" by (auto simp: staged_result_def)
    have so': "slots_ok (insert slot I) s" using so by (rule slots_ok_mono) auto
    have sub': "staged_ins s \<union> staged_del s \<subseteq> insert p T" using sub by auto
    have w': "q \<in> W \<longleftrightarrow> q \<in> (set m0 \<union> staged_ins s) - staged_del s" if "q \<in> insert p T" for q
    proof (cases "q = p")
      case True
      with keep b pn e show ?thesis by simp
    next
      case False
      with that w show ?thesis by simp
    qed
    show ?thesis
      unfolding r by (rule stagedI [OF bo so' s0 sm e dj dl sub' w'])
  next
    case ins
    let ?s' = "s\<lparr>maxima := fst (set_insert (maxima s) p), to_rollback := (to_rollback s)[slot := Some p],
                        if_rollback := (if_rollback s)[slot := True]\<rparr>"
    from ins have r: "staged_result s slot p b = ?s'" by (simp add: staged_result_def)
    from ins slot have sl: "slot < NUMBER_TO_ROLLBACK" by simp
    have i: "staged_ins ?s' = insert p (staged_ins s)"
      by (rule staged_ins_update [OF bo sl free(1) [OF sl]])
    have d: "staged_del ?s' = staged_del s" by simp
    have so': "slots_ok (insert slot I) ?s'"
      by (rule slots_ok_ins [OF bo so sl slot(1) pn(1)])
    have bo': "buffers_ok ?s'" using bo by (simp add: buffers_ok_def)
    from set_insert_sorted [OF sm ins(2)]
    have m': "set (maxima ?s') = insert p (set (maxima s))" "sorted_wrt compare_maxima (maxima ?s')"
      by simp_all
    have e': "set (maxima ?s') = set m0 \<union> insert p (staged_ins s)" unfolding m' e by blast
    have dj': "insert p (staged_ins s) \<inter> set m0 = {}" using dj ins(2) e by blast
    have sub': "insert p (staged_ins s) \<union> staged_del s \<subseteq> insert p T" using sub by blast
    have w': "q \<in> W \<longleftrightarrow> q \<in> (set m0 \<union> insert p (staged_ins s)) - staged_del s" if "q \<in> insert p T" for q
    proof (cases "q = p")
      case True
      with ins b pn show ?thesis by simp
    next
      case False
      with that w show ?thesis by simp
    qed
    show ?thesis
      unfolding r
      by (rule stagedI [OF bo' so' s0 m'(2)]) (simp_all only: i d e' dj' dl sub' w')
  next
    case del
    let ?s' = "s\<lparr>to_erase := (to_erase s)[slot := Some p], if_erase := (if_erase s)[slot := True]\<rparr>"
    from del have r: "staged_result s slot p b = ?s'" by (simp add: staged_result_def)
    have d: "staged_del ?s' = insert p (staged_del s)"
      by (rule staged_del_update [OF bo slot(2) free(2)])
    have i: "staged_ins ?s' = staged_ins s" by simp
    have so': "slots_ok (insert slot I) ?s'"
      by (rule slots_ok_del [OF bo so slot(2) slot(1) pn(2)])
    have bo': "buffers_ok ?s'" using bo by (simp add: buffers_ok_def)
    have mm: "maxima ?s' = maxima s" by simp
    have pm: "p \<in> set m0" using del(2) e pn by blast
    have dl': "insert p (staged_del s) \<subseteq> set m0" using dl pm by blast
    have sub': "staged_ins s \<union> insert p (staged_del s) \<subseteq> insert p T" using sub by blast
    have w': "q \<in> W \<longleftrightarrow> q \<in> (set m0 \<union> staged_ins s) - insert p (staged_del s)" if "q \<in> insert p T" for q
    proof (cases "q = p")
      case True
      with del b show ?thesis by simp
    next
      case False
      with that w show ?thesis by simp
    qed
    show ?thesis
      unfolding r
      by (rule stagedI [OF bo' so' s0]) (simp_all only: i d mm sm e dj dl' sub' w')
  qed
qed

lemma mx_erase_apply:
  "distinct (maxima s) \<Longrightarrow> q \<in> set (maxima s) \<Longrightarrow>
   mx_erase (Some q) (k, s) = Return () (k, s\<lparr>maxima := filter (\<lambda>x. x \<noteq> q) (maxima s)\<rparr>)"
proof -
  have "filter ((\<noteq>) q) (maxima s) = filter (\<lambda>x. x \<noteq> q) (maxima s)"
    by (rule filter_cong) auto
  then show "distinct (maxima s) \<Longrightarrow> q \<in> set (maxima s) \<Longrightarrow> ?thesis"
    by (simp add: mx_erase_def distinct_remove1_removeAll removeAll_filter_not_eq)
qed

lemma erase_loop_result:
  assumes "distinct (maxima s)"
    and "\<forall>i\<in>set is. if_erase s ! i \<longrightarrow> (\<exists>p. to_erase s ! i = Some p \<and> p \<in> set (maxima s))"
    and "distinct is"
    and "\<forall>i\<in>set is. \<forall>j\<in>set is.
           if_erase s ! i \<and> if_erase s ! j \<and> to_erase s ! i = to_erase s ! j \<longrightarrow> i = j"
  shows "erase_loop is (k, s) =
           Return () (k, s\<lparr>maxima := filter (\<lambda>q. \<forall>i\<in>set is. \<not> (if_erase s ! i \<and> to_erase s ! i = Some q))
                                          (maxima s)\<rparr>)"
  using assms
proof (induction "is" arbitrary: s)
  case Nil
  then show ?case by simp
next
  case (Cons i "is")
  show ?case
  proof (cases "if_erase s ! i")
    case False
    have "erase_loop is (k, s) =
           Return () (k, s\<lparr>maxima := filter (\<lambda>q. \<forall>i\<in>set is. \<not> (if_erase s ! i \<and> to_erase s ! i = Some q))
                                          (maxima s)\<rparr>)"
      using Cons.prems by (intro Cons.IH) auto
    moreover have "filter (\<lambda>q. \<forall>j\<in>set (i # is). \<not> (if_erase s ! j \<and> to_erase s ! j = Some q)) (maxima s)
        = filter (\<lambda>q. \<forall>i\<in>set is. \<not> (if_erase s ! i \<and> to_erase s ! i = Some q)) (maxima s)"
      using False by (intro filter_cong) auto
    ultimately show ?thesis using False by (simp add: bindM_def)
  next
    case True
    with Cons.prems obtain p where p: "to_erase s ! i = Some p" "p \<in> set (maxima s)" by auto
    let ?s1 = "s\<lparr>maxima := filter (\<lambda>x. x \<noteq> p) (maxima s)\<rparr>"
    have step: "mx_erase (to_erase s ! i) (k, s) = Return () (k, ?s1)"
      using p Cons.prems(1) by (simp add: mx_erase_apply)
    have other: "p' \<noteq> p" if "j \<in> set is" "if_erase s ! j" "to_erase s ! j = Some p'" for j p'
    proof
      assume "p' = p"
      with that p True Cons.prems(4) have "i = j" by auto
      with that Cons.prems(3) show False by simp
    qed
    have "erase_loop is (k, ?s1) =
           Return () (k, ?s1\<lparr>maxima := filter (\<lambda>q. \<forall>i\<in>set is. \<not> (if_erase ?s1 ! i \<and> to_erase ?s1 ! i = Some q))
                                          (maxima ?s1)\<rparr>)"
    proof (intro Cons.IH)
      show "distinct (maxima ?s1)" using Cons.prems(1) by simp
      show "\<forall>i\<in>set is. if_erase ?s1 ! i \<longrightarrow> (\<exists>p. to_erase ?s1 ! i = Some p \<and> p \<in> set (maxima ?s1))"
        using Cons.prems(2) other by fastforce
      show "distinct is" using Cons.prems(3) by simp
      show "\<forall>i\<in>set is. \<forall>j\<in>set is.
           if_erase ?s1 ! i \<and> if_erase ?s1 ! j \<and> to_erase ?s1 ! i = to_erase ?s1 ! j \<longrightarrow> i = j"
        using Cons.prems(4) by simp
    qed
    moreover have "filter (\<lambda>q. \<forall>i\<in>set is. \<not> (if_erase s ! i \<and> to_erase s ! i = Some q)) (filter (\<lambda>x. x \<noteq> p) (maxima s))
        = filter (\<lambda>q. \<forall>j\<in>set (i # is). \<not> (if_erase s ! j \<and> to_erase s ! j = Some q)) (maxima s)"
      unfolding filter_filter using True p by (intro filter_cong) auto
    ultimately show ?thesis using True step by (simp add: bindM_def)
  qed
qed

lemma rollback_loop_result:
  assumes "distinct (maxima s)"
    and "\<forall>i\<in>set is. if_rollback s ! i \<longrightarrow> (\<exists>p. to_rollback s ! i = Some p \<and> p \<in> set (maxima s))"
    and "distinct is"
    and "\<forall>i\<in>set is. \<forall>j\<in>set is.
           if_rollback s ! i \<and> if_rollback s ! j \<and> to_rollback s ! i = to_rollback s ! j \<longrightarrow> i = j"
  shows "rollback_loop is (k, s) =
           Return () (k, s\<lparr>maxima := filter (\<lambda>q. \<forall>i\<in>set is. \<not> (if_rollback s ! i \<and> to_rollback s ! i = Some q))
                                          (maxima s)\<rparr>)"
  using assms
proof (induction "is" arbitrary: s)
  case Nil
  then show ?case by simp
next
  case (Cons i "is")
  show ?case
  proof (cases "if_rollback s ! i")
    case False
    have "rollback_loop is (k, s) =
           Return () (k, s\<lparr>maxima := filter (\<lambda>q. \<forall>i\<in>set is. \<not> (if_rollback s ! i \<and> to_rollback s ! i = Some q))
                                          (maxima s)\<rparr>)"
      using Cons.prems by (intro Cons.IH) auto
    moreover have "filter (\<lambda>q. \<forall>j\<in>set (i # is). \<not> (if_rollback s ! j \<and> to_rollback s ! j = Some q)) (maxima s)
        = filter (\<lambda>q. \<forall>i\<in>set is. \<not> (if_rollback s ! i \<and> to_rollback s ! i = Some q)) (maxima s)"
      using False by (intro filter_cong) auto
    ultimately show ?thesis using False by (simp add: bindM_def)
  next
    case True
    with Cons.prems obtain p where p: "to_rollback s ! i = Some p" "p \<in> set (maxima s)" by auto
    let ?s1 = "s\<lparr>maxima := filter (\<lambda>x. x \<noteq> p) (maxima s)\<rparr>"
    have step: "mx_erase (to_rollback s ! i) (k, s) = Return () (k, ?s1)"
      using p Cons.prems(1) by (simp add: mx_erase_apply)
    have other: "p' \<noteq> p" if "j \<in> set is" "if_rollback s ! j" "to_rollback s ! j = Some p'" for j p'
    proof
      assume "p' = p"
      with that p True Cons.prems(4) have "i = j" by auto
      with that Cons.prems(3) show False by simp
    qed
    have "rollback_loop is (k, ?s1) =
           Return () (k, ?s1\<lparr>maxima := filter (\<lambda>q. \<forall>i\<in>set is. \<not> (if_rollback ?s1 ! i \<and> to_rollback ?s1 ! i = Some q))
                                          (maxima ?s1)\<rparr>)"
    proof (intro Cons.IH)
      show "distinct (maxima ?s1)" using Cons.prems(1) by simp
      show "\<forall>i\<in>set is. if_rollback ?s1 ! i \<longrightarrow> (\<exists>p. to_rollback ?s1 ! i = Some p \<and> p \<in> set (maxima ?s1))"
        using Cons.prems(2) other by fastforce
      show "distinct is" using Cons.prems(3) by simp
      show "\<forall>i\<in>set is. \<forall>j\<in>set is.
           if_rollback ?s1 ! i \<and> if_rollback ?s1 ! j \<and> to_rollback ?s1 ! i = to_rollback ?s1 ! j \<longrightarrow> i = j"
        using Cons.prems(4) by simp
    qed
    moreover have "filter (\<lambda>q. \<forall>i\<in>set is. \<not> (if_rollback s ! i \<and> to_rollback s ! i = Some q)) (filter (\<lambda>x. x \<noteq> p) (maxima s))
        = filter (\<lambda>q. \<forall>j\<in>set (i # is). \<not> (if_rollback s ! j \<and> to_rollback s ! j = Some q)) (maxima s)"
      unfolding filter_filter using True p by (intro filter_cong) auto
    ultimately show ?thesis using True step by (simp add: bindM_def)
  qed
qed

section \<open>The calls keep the structure consistent\<close>

lemma call_result_bind:
  assumes "call_result (m (k, s)) k c Q E"
    and "\<And>k' s'. Q s' \<Longrightarrow> k' \<le> k \<Longrightarrow> k \<le> k' + c \<Longrightarrow> call_result (f () (k', s')) k' d Q' E"
  shows "call_result (bindM m f (k, s)) k (c + d) Q' E"
proof -
  from assms(1) consider
    (ret) k' s' where "m (k, s) = Return () (k', s')" "k' \<le> k" "k \<le> k' + c" "Q s'"
    | (thr) s' where "m (k, s) = Throw ComparisonFailure (0, s')" "k < c" "E s'"
    unfolding call_result_def by blast
  then show ?thesis
  proof cases
    case ret
    from assms(2) [OF ret(4,2,3)] ret show ?thesis
      unfolding call_result_def by (simp add: bindM_def) (elim disjE exE conjE; force)
  next
    case thr
    then show ?thesis unfolding call_result_def by (simp add: bindM_def)
  qed
qed

lemma call_result_weaken:
  assumes "call_result out k c Q E"
    and "\<And>s. Q s \<Longrightarrow> Q' s" "\<And>s. E s \<Longrightarrow> E' s" "c \<le> c'"
  shows "call_result out k c' Q' E'"
  using assms unfolding call_result_def
  by (elim disjE exE conjE) force+

lemma call_result_step:
  "step_result out k c () s_ret s_thr \<Longrightarrow> call_result out k c (\<lambda>s. s = s_ret) (\<lambda>s. s = s_thr)"
  unfolding step_result_def call_result_def by auto

lemma call_result_return: "Q s \<Longrightarrow> call_result (Return () (k, s)) k c Q E"
  unfolding call_result_def by simp

lemma call_result_try:
  assumes "call_result (body (k, s)) k c Q E"
    and "\<And>s'. E s' \<Longrightarrow> \<exists>s''. handler (0, s') = Return () (0, s'') \<and> E' s''"
  shows "call_result (try_catch_rethrow body handler (k, s)) k c Q E'"
proof -
  from assms(1) consider
    (ret) k' s' where "body (k, s) = Return () (k', s')" "k' \<le> k" "k \<le> k' + c" "Q s'"
    | (thr) s' where "body (k, s) = Throw ComparisonFailure (0, s')" "k < c" "E s'"
    unfolding call_result_def by blast
  then show ?thesis
  proof cases
    case ret
    then show ?thesis unfolding call_result_def by (simp add: try_catch_rethrow_def)
  next
    case thr
    from assms(2) [OF thr(3)] obtain s'' where "handler (0, s') = Return () (0, s'')" "E' s''" by blast
    with thr show ?thesis unfolding call_result_def by (simp add: try_catch_rethrow_def)
  qed
qed

lemma multi_next_valid:
  "valid_skip qs i previous \<Longrightarrow> Suc (index_without previous i) \<noteq> length (without previous qs) \<Longrightarrow>
   \<exists>n. multi_next qs (Pos i) previous = Some (Pos n) \<and> valid_skip qs n previous \<and>
       index_without previous n = Suc (index_without previous i)"
  by (cases previous) (auto simp: valid_skip_def multi_next_def split: if_splits)

lemma multi_next_last:
  "valid_skip qs i previous \<Longrightarrow> Suc (index_without previous i) = length (without previous qs) \<Longrightarrow>
   multi_next qs (Pos i) previous = Some End"
  by (cases previous) (auto simp: valid_skip_def multi_next_def split: if_splits)

lemma multi_prev_valid:
  "valid_skip qs i previous \<Longrightarrow> index_without previous i \<noteq> 0 \<Longrightarrow>
   \<exists>n. multi_prev qs (Pos i) previous = Some (Pos n) \<and> valid_skip qs n previous \<and>
       index_without previous n = index_without previous i - 1"
  by (cases previous) (auto simp: valid_skip_def multi_prev_def split: if_splits)

lemma staged_points_update [simp]: "staged m0 W T I (s\<lparr>points := ps\<rparr>) = staged m0 W T I s"
  by (simp add: staged_def buffers_ok_def slots_ok_def)

lemma points_staged_result [simp]: "points (staged_result s slot p b) = points s"
  by (simp add: staged_result_def)

lemma conditional_add_staged:
  assumes ps: "points s = qs" and st: "staged m0 W T I s"
    and d: "distinct (without previous qs)" and W: "W = set (local_maxima (without previous qs))"
    and v: "valid_skip qs n previous" and new: "without previous qs ! index_without previous n \<notin> T"
    and slot: "slot \<notin> I" "slot < NUMBER_TO_ROLLBACK"
  shows "call_result (conditional_add_new_maximum (Pos n) slot previous (k, s)) k 4
           (\<lambda>s'. points s' = qs \<and>
                 staged m0 W (insert (without previous qs ! index_without previous n) T) (insert slot I) s')
           (\<lambda>s'. s' = s)"
proof -
  let ?E = "without previous qs" and ?n = "index_without previous n"
  from without_nth [OF v] have n: "?n < length ?E" "?E ! ?n = qs ! n" by simp_all
  from st have sm: "sorted_wrt compare_maxima (maxima s)" by (simp add: staged_def)
  from v ps have v': "valid_skip (points s) n previous" by simp
  have b: "local_maximum ?E ?n \<longleftrightarrow> ?E ! ?n \<in> W"
    unfolding W using local_maximum_member [OF d n(1)] by simp
  from slot have sl: "slot < NUMBER_TO_ERASE" by (simp add: NUMBER_TO_ERASE_def NUMBER_TO_ROLLBACK_def)
  have "staged m0 W (insert (?E ! ?n) T) (insert slot I) (staged_result s slot (?E ! ?n) (local_maximum ?E ?n))"
    by (rule staged_step [OF st new slot(1) sl slot(2) b])
  then have "staged m0 W (insert (?E ! ?n) T) (insert slot I)
     (staged_result s slot (points s ! n) (local_maximum (without previous (points s)) ?n))"
    using n ps by simp
  with call_result_step [OF conditional_add_result [OF v' sm, of slot k]] ps
  show ?thesis
    by (elim call_result_weaken) simp_all
qed

lemma conditional_add_End:
  "Q s \<Longrightarrow> call_result (conditional_add_new_maximum End slot previous (k, s)) k c Q E"
  by (simp add: conditional_add_new_maximum_def call_result_return)

lemma fold_clear:
  "length b = n \<Longrightarrow> fold (\<lambda>i b. b[i := False]) [0..<n] b = replicate n False"
proof -
  have "length b = n \<Longrightarrow> m \<le> n \<Longrightarrow>
        fold (\<lambda>i b. b[i := False]) [0..<m] b = replicate m False @ drop m b" for m
  proof (induction m)
    case 0
    then show ?case by simp
  next
    case (Suc m)
    then have "fold (\<lambda>i b. b[i := False]) [0..<Suc m] b = (replicate m False @ drop m b)[m := False]"
      by simp
    also have "\<dots> = replicate m False @ (drop m b)[0 := False]"
      by (simp add: list_update_append)
    also have "drop m b = b ! m # drop (Suc m) b"
      using Suc.prems by (simp add: Cons_nth_drop_Suc)
    finally show ?case by (simp add: replicate_app_Cons_same)
  qed
  from this [of n] show "length b = n \<Longrightarrow> ?thesis" by simp
qed

lemma clear_erase_apply:
  "buffers_ok s \<Longrightarrow> clear_erase (k, s) = Return () (k, s\<lparr>if_erase := replicate NUMBER_TO_ERASE False\<rparr>)"
  by (simp add: clear_erase_def buffers_ok_def fold_clear)

lemma clear_rollback_apply:
  "buffers_ok s \<Longrightarrow> clear_rollback (k, s) = Return () (k, s\<lparr>if_rollback := replicate NUMBER_TO_ROLLBACK False\<rparr>)"
  by (simp add: clear_rollback_def buffers_ok_def fold_clear)

lemma clear_both:
  "buffers_ok s \<Longrightarrow> bindM clear_rollback (\<lambda>_. clear_erase) (k, s) = Return () (k, cleared s)"
  by (simp add: clear_rollback_apply clear_erase_apply cleared_def buffers_ok_def)

lemma cleared_simps [simp]:
  "points (cleared s) = points s" "maxima (cleared s) = maxima s"
  by (simp_all add: cleared_def)

lemma cleared_ok: "buffers_ok s \<Longrightarrow> buffers_ok (cleared s) \<and> slots_ok {} (cleared s)"
  by (simp add: cleared_def buffers_ok_def slots_ok_def)

lemma staged_distinct: "staged m0 W T I s \<Longrightarrow> distinct (maxima s)"
  by (simp add: staged_def sorted_maxima_distinct)

lemma erase_from_maxima_staged:
  assumes st: "staged m0 W T I s"
  shows "erase_from_maxima (k, s) = Return () (k, s\<lparr>maxima := filter (\<lambda>q. q \<notin> staged_del s) (maxima s)\<rparr>)"
proof -
  from st have so: "slots_ok I s" and sub: "staged_del s \<subseteq> set (maxima s)"
    by (auto simp: staged_def)
  have a: "\<forall>i\<in>set [0..<NUMBER_TO_ERASE]. if_erase s ! i \<longrightarrow> (\<exists>p. to_erase s ! i = Some p \<and> p \<in> set (maxima s))"
  proof (intro ballI impI)
    fix i assume i: "i \<in> set [0..<NUMBER_TO_ERASE]" "if_erase s ! i"
    with so obtain p where p: "to_erase s ! i = Some p" by (auto simp: slots_ok_def)
    with i have "p \<in> staged_del s" by (auto simp: staged_del_def)
    with sub p show "\<exists>p. to_erase s ! i = Some p \<and> p \<in> set (maxima s)" by blast
  qed
  have b: "\<forall>i\<in>set [0..<NUMBER_TO_ERASE]. \<forall>j\<in>set [0..<NUMBER_TO_ERASE].
           if_erase s ! i \<and> if_erase s ! j \<and> to_erase s ! i = to_erase s ! j \<longrightarrow> i = j"
    using so by (simp add: slots_ok_def)
  have c: "filter (\<lambda>q. \<forall>i\<in>set [0..<NUMBER_TO_ERASE]. \<not> (if_erase s ! i \<and> to_erase s ! i = Some q)) (maxima s)
      = filter (\<lambda>q. q \<notin> staged_del s) (maxima s)"
    by (rule filter_cong) (auto simp: staged_del_def)
  show ?thesis
    unfolding erase_from_maxima_def
    using erase_loop_result [OF staged_distinct [OF st] a distinct_upt b, of k] c by simp
qed

lemma rollback_maxima_staged:
  assumes st: "staged m0 W T I s"
  shows "rollback_maxima (k, s) = Return () (k, s\<lparr>maxima := m0\<rparr>)"
proof -
  from st have so: "slots_ok I s" and e: "set (maxima s) = set m0 \<union> staged_ins s"
    and dj: "staged_ins s \<inter> set m0 = {}" and s0: "sorted_wrt compare_maxima m0"
    and sm: "sorted_wrt compare_maxima (maxima s)"
    by (auto simp: staged_def)
  have a: "\<forall>i\<in>set [0..<NUMBER_TO_ROLLBACK]. if_rollback s ! i \<longrightarrow> (\<exists>p. to_rollback s ! i = Some p \<and> p \<in> set (maxima s))"
  proof (intro ballI impI)
    fix i assume i: "i \<in> set [0..<NUMBER_TO_ROLLBACK]" "if_rollback s ! i"
    with so obtain p where p: "to_rollback s ! i = Some p" by (auto simp: slots_ok_def)
    with i have "p \<in> staged_ins s" by (auto simp: staged_ins_def)
    with e p show "\<exists>p. to_rollback s ! i = Some p \<and> p \<in> set (maxima s)" by blast
  qed
  have b: "\<forall>i\<in>set [0..<NUMBER_TO_ROLLBACK]. \<forall>j\<in>set [0..<NUMBER_TO_ROLLBACK].
           if_rollback s ! i \<and> if_rollback s ! j \<and> to_rollback s ! i = to_rollback s ! j \<longrightarrow> i = j"
    using so by (simp add: slots_ok_def)
  have c: "filter (\<lambda>q. \<forall>i\<in>set [0..<NUMBER_TO_ROLLBACK]. \<not> (if_rollback s ! i \<and> to_rollback s ! i = Some q)) (maxima s)
      = filter (\<lambda>q. q \<notin> staged_ins s) (maxima s)"
    by (rule filter_cong) (auto simp: staged_ins_def)
  have "set (filter (\<lambda>q. q \<notin> staged_ins s) (maxima s)) = set m0"
    using e dj by auto
  moreover have "sorted_wrt compare_maxima (filter (\<lambda>q. q \<notin> staged_ins s) (maxima s))"
    using sm by (rule sorted_wrt_filter_any)
  ultimately have "filter (\<lambda>q. q \<notin> staged_ins s) (maxima s) = m0"
    using s0 by (intro sorted_maxima_unique)
  with c show ?thesis
    unfolding rollback_maxima_def
    using rollback_loop_result [OF staged_distinct [OF st] a distinct_upt b, of k] by simp
qed

lemma committed_maxima:
  assumes st: "staged m0 W T I s" and rest: "\<And>p. p \<notin> T \<Longrightarrow> p \<in> set m0 \<longleftrightarrow> p \<in> W"
  shows "set (filter (\<lambda>q. q \<notin> staged_del s) (maxima s)) = W"
proof -
  from st have e: "set (maxima s) = set m0 \<union> staged_ins s"
    and sub: "staged_ins s \<union> staged_del s \<subseteq> T"
    and w: "\<forall>p\<in>T. p \<in> W \<longleftrightarrow> p \<in> (set m0 \<union> staged_ins s) - staged_del s"
    by (simp_all add: staged_def)
  have "p \<in> set (filter (\<lambda>q. q \<notin> staged_del s) (maxima s)) \<longleftrightarrow> p \<in> W" for p
  proof (cases "p \<in> T")
    case True
    with w e show ?thesis by simp
  next
    case False
    with sub have "p \<notin> staged_ins s" "p \<notin> staged_del s" by auto
    with rest [OF False] e show ?thesis by simp
  qed
  then show ?thesis by blast
qed

lemma bindM_via_points:
  "bindM (via_points f) g (k, s) = (case f (points s) of None \<Rightarrow> Undefined | Some r \<Rightarrow> g r (k, s))"
  by (simp add: bindM_def split: option.splits)

lemma bindM_getsM: "bindM (getsM f) g (k, s) = g (f s) (k, s)"
  by (simp add: bindM_def)

lemma erase_point_apply:
  "i < length (points s) \<Longrightarrow>
   erase_point (Pos i) (k, s) = Return () (k, s\<lparr>points := without (Pos i) (points s)\<rparr>)"
  by (simp add: erase_point_def)

lemma stage_old_result:
  assumes st: "staged m0 W T I s" and old: "old \<notin> T" "old \<notin> W" and slot: "4 \<notin> I"
    and ps: "points s = qs" and i: "i < length qs"
  shows "call_result
     (bindM (mx_find old) (\<lambda>temp.
      bindM (if temp \<noteq> None
             then modifyM (\<lambda>s. s\<lparr>to_erase := (to_erase s)[4 := temp],
                                  if_erase := (if_erase s)[4 := True]\<rparr>)
             else returnM ()) (\<lambda>_.
      erase_point (Pos i))) (k, s)) k 1
     (\<lambda>s'. points s' = without (Pos i) qs \<and> staged m0 W (insert old T) (insert 4 I) s')
     (\<lambda>s'. s' = s)"
proof (cases "k = 0")
  case True
  then show ?thesis by (simp add: call_result_def mx_find_apply)
next
  case False
  from st have sm: "sorted_wrt compare_maxima (maxima s)" by (simp add: staged_def)
  have "staged m0 W (insert old T) (insert 4 I) (staged_result s 4 old False)"
    by (rule staged_step [OF st old(1) slot]) (simp_all add: NUMBER_TO_ERASE_def old(2))
  then have r: "staged m0 W (insert old T) (insert 4 I) (staged_result s 4 old False\<lparr>points := without (Pos i) qs\<rparr>)"
    by simp
  have "bindM (mx_find old) (\<lambda>temp.
      bindM (if temp \<noteq> None
             then modifyM (\<lambda>s. s\<lparr>to_erase := (to_erase s)[4 := temp],
                                  if_erase := (if_erase s)[4 := True]\<rparr>)
             else returnM ()) (\<lambda>_.
      erase_point (Pos i))) (k, s)
    = Return () (k - 1, staged_result s 4 old False\<lparr>points := without (Pos i) qs\<rparr>)"
    using False ps i
    by (simp add: mx_find_apply set_find_sorted [OF sm] staged_result_def erase_point_apply)
  with r False show ?thesis by (simp add: call_result_def)
qed

lemma staged_mono: "staged m0 W T I s \<Longrightarrow> I \<subseteq> J \<Longrightarrow> staged m0 W T J s"
  unfolding staged_def using slots_ok_mono by blast

lemma distinct_without:
  assumes "distinct qs"
  shows "distinct (without it qs)"
proof (cases it)
  case (Pos i)
  from assms have "set (take i qs) \<inter> set (drop (Suc i) qs) = {}"
    by (rule set_take_disj_set_drop_if_distinct) simp
  moreover from assms have "distinct (take i qs)" "distinct (drop (Suc i) qs)" by simp_all
  ultimately show ?thesis using Pos by simp
next
  case End
  with assms show ?thesis by simp
qed

lemma nth_notin_without:
  assumes "distinct qs" "i < length qs"
  shows "qs ! i \<notin> set (without (Pos i) qs)"
proof -
  from assms(2) have "qs = take i qs @ qs ! i # drop (Suc i) qs" by (rule id_take_nth_drop)
  with assms(1) have "distinct (take i qs @ qs ! i # drop (Suc i) qs)" by simp
  then show ?thesis by auto
qed

lemma bindM_returnM: "bindM (returnM x) f st = f x st"
  by (simp add: bindM_def)

lemma bindM_bindM_via_points:
  "bindM (bindM (via_points f) g) h (k, s) =
     (case f (points s) of None \<Rightarrow> Undefined | Some r \<Rightarrow> bindM (g r) h (k, s))"
  by (simp add: bindM_def split: option.splits)

lemma custom_insert_try_result:
  fixes qs :: "('a::linorder, 'v::linorder) point_type list"
  assumes ps: "points s = qs" and st: "staged m0 W {} {} s"
    and pv: "previous = End \<or> (0 < j \<and> previous = Pos (j - 1))" and j: "j < length qs"
    and d: "distinct qs" and W: "W = set (local_maxima (without previous qs))"
    and f: "found \<longleftrightarrow> previous \<noteq> End"
  defines "E \<equiv> without previous qs" and "j' \<equiv> index_without previous j"
  shows "call_result (custom_insert_try (Pos j) previous found (k, s)) k 13
     (\<lambda>s'. points s' = E \<and>
        (\<exists>T I. staged m0 W T I s' \<and> E ! j' \<in> T \<and> (0 < j' \<longrightarrow> E ! (j' - 1) \<in> T) \<and>
               (Suc j' < length E \<longrightarrow> E ! Suc j' \<in> T) \<and> (found \<longrightarrow> qs ! (j - 1) \<in> T)))
     (\<lambda>s'. points s' = qs \<and> (\<exists>T I. staged m0 W T I s'))"
proof -
  let ?x = "E ! j'"
  let ?T2 = "if Suc j' < length E then {E ! Suc j', ?x} else {?x}"
  let ?T3 = "if 0 < j' then insert (E ! (j' - 1)) ?T2 else ?T2"
  let ?Q1 = "\<lambda>s'. points s' = qs \<and> staged m0 W {?x} {1} s'"
  let ?Q2 = "\<lambda>s'. points s' = qs \<and> staged m0 W ?T2 {1, 2} s'"
  let ?Q3 = "\<lambda>s'. points s' = qs \<and> staged m0 W ?T3 {1, 2, 3} s'"
  let ?Q4 = "\<lambda>s'. points s' = E \<and>
        (\<exists>T I. staged m0 W T I s' \<and> E ! j' \<in> T \<and> (0 < j' \<longrightarrow> E ! (j' - 1) \<in> T) \<and>
               (Suc j' < length E \<longrightarrow> E ! Suc j' \<in> T) \<and> (found \<longrightarrow> qs ! (j - 1) \<in> T))"
  let ?Ex = "\<lambda>s'. points s' = qs \<and> (\<exists>T I. staged m0 W T I s')"
  let ?r6 = "if found then
       bindM (via_points (\<lambda>ps. deref ps previous)) (\<lambda>p.
       bindM (mx_find p) (\<lambda>temp.
       bindM (if temp \<noteq> None
              then modifyM (\<lambda>s. s\<lparr>to_erase := (to_erase s)[4 := temp],
                                   if_erase := (if_erase s)[4 := True]\<rparr>)
              else returnM ()) (\<lambda>_.
       erase_point previous)))
     else returnM ()"
  let ?r45 = "bindM (getsM (\<lambda>s. Pos j \<noteq> it_begin (points s))) (\<lambda>not_first.
     bindM (if not_first
            then bindM (via_points (\<lambda>ps. multi_prev ps (Pos j) previous)) (\<lambda>l.
                 conditional_add_new_maximum l 3 previous)
            else returnM ()) (\<lambda>_. ?r6))"
  let ?r23 = "bindM (via_points (\<lambda>ps. multi_next ps (Pos j) previous)) (\<lambda>n.
     bindM (conditional_add_new_maximum n 2 previous) (\<lambda>_. ?r45))"
  from pv j have v: "valid_skip qs j previous" by (auto simp: valid_skip_def)
  from d have dE: "distinct E" unfolding E_def by (rule distinct_without)
  from without_nth [OF v] have jE: "j' < length E" "?x = qs ! j" by (simp_all add: E_def j'_def)
  have WE: "W \<subseteq> set E" unfolding W E_def by (rule local_maxima_subset)
  have T3E: "?T3 \<subseteq> set E" using jE(1) by auto

  have step6: "call_result (?r6 (k, s)) k 1 ?Q4 ?Ex" if q: "?Q3 s" for k s
  proof (cases found)
    case False
    with f have "previous = End" by simp
    then have "E = qs" by (simp add: E_def)
    with q False have "?Q4 s" by auto
    with False show ?thesis by (simp add: call_result_return)
  next
    case True
    with f pv have p: "previous = Pos (j - 1)" "0 < j" by auto
    let ?old = "qs ! (j - 1)"
    from p j have i: "j - 1 < length qs" by simp
    from d i have "?old \<notin> set E" unfolding E_def p by (rule nth_notin_without)
    with T3E WE have old: "?old \<notin> ?T3" "?old \<notin> W" by blast+
    from q have st3: "staged m0 W ?T3 {1, 2, 3} s" and ps3: "points s = qs" by simp_all
    have eq: "?r6 (k, s) = bindM (mx_find ?old) (\<lambda>temp.
       bindM (if temp \<noteq> None
              then modifyM (\<lambda>s. s\<lparr>to_erase := (to_erase s)[4 := temp],
                                   if_erase := (if_erase s)[4 := True]\<rparr>)
              else returnM ()) (\<lambda>_.
       erase_point (Pos (j - 1)))) (k, s)"
      using True i ps3 p by (simp add: bindM_via_points)
    have "call_result (?r6 (k, s)) k 1
       (\<lambda>s'. points s' = without (Pos (j - 1)) qs \<and> staged m0 W (insert ?old ?T3) (insert 4 {1, 2, 3}) s')
       (\<lambda>s'. s' = s)"
      unfolding eq by (rule stage_old_result [OF st3 old _ ps3 i]) simp
    then show ?thesis
    proof (rule call_result_weaken)
      fix s' assume a: "points s' = without (Pos (j - 1)) qs \<and> staged m0 W (insert ?old ?T3) (insert 4 {1, 2, 3}) s'"
      with q show "?Q4 s'" unfolding E_def p
        by (intro conjI exI [of _ "insert ?old ?T3"] exI [of _ "insert 4 {1, 2, 3}"]) (auto simp: E_def p)
    next
      fix s' assume "s' = s"
      with q show "?Ex s'" by blast
    qed simp_all
  qed

  have step45: "call_result (?r45 (k, s)) k (4 + 1) ?Q4 ?Ex" if q: "?Q2 s" for k s
  proof -
    from q have st2: "staged m0 W ?T2 {1, 2} s" and ps2: "points s = qs" by simp_all
    from j have ne: "qs \<noteq> []" by auto
    consider (first) "j = 0" | (least) "0 < j" "j' = 0" | (left) "0 < j'" by (cases j; cases j') auto
    then show ?thesis
    proof cases
      case first
      with pv have e: "previous = End" by simp
      with first have "j' = 0" by (simp add: j'_def)
      with q have "?Q3 s" using staged_mono [OF st2, of "{1, 2, 3}"] by simp
      then have "call_result (?r6 (k, s)) k 1 ?Q4 ?Ex" by (rule step6)
      moreover have "?r45 (k, s) = ?r6 (k, s)"
        using first ps2 ne by (simp add: bindM_getsM it_begin_def bindM_returnM)
      ultimately have "call_result (?r45 (k, s)) k 1 ?Q4 ?Ex" by (simp only:)
      then show ?thesis by (rule call_result_weaken) simp_all
    next
      case least
      with pv have p: "previous = Pos 0" "j = 1" by (auto simp: j'_def split: if_splits)
      from p j have l: "multi_prev qs (Pos j) previous = Some End" by (auto simp: multi_prev_def)
      from least q have "?Q3 s" using staged_mono [OF st2, of "{1, 2, 3}"] by simp
      then have "call_result (?r6 (k, s)) k 1 ?Q4 ?Ex" by (rule step6)
      moreover have "?r45 (k, s) = ?r6 (k, s)"
        using least l ps2 ne
        by (simp add: bindM_getsM it_begin_def bindM_bindM_via_points conditional_add_new_maximum_def bindM_returnM)
      ultimately have "call_result (?r45 (k, s)) k 1 ?Q4 ?Ex" by (simp only:)
      then show ?thesis by (rule call_result_weaken) simp_all
    next
      case left
      then have j0: "0 < j" by (cases previous) (auto simp: j'_def split: if_splits)
      from multi_prev_valid [OF v] left obtain n where
        n: "multi_prev qs (Pos j) previous = Some (Pos n)" "valid_skip qs n previous"
           "index_without previous n = j' - 1" by (auto simp: j'_def)
      have new: "without previous qs ! index_without previous n \<notin> ?T2"
        using left jE(1) nth_eq_iff_index_eq [OF dE] by (auto simp: n(3) E_def [symmetric])
      have "call_result (conditional_add_new_maximum (Pos n) 3 previous (k, s)) k 4 ?Q3 ?Ex"
      proof (rule call_result_weaken [OF conditional_add_staged [OF ps2 st2 dE [unfolded E_def] W n(2) new, of 3 k]])
        fix s' assume "points s' = qs \<and>
           staged m0 W (insert (without previous qs ! index_without previous n) ?T2) (insert 3 {1, 2}) s'"
        moreover have "insert 3 {1, 2} = {1, 2, 3::nat}" by auto
        ultimately show "?Q3 s'" using left by (simp add: n(3) E_def [symmetric])
      next
        fix s' assume "s' = s"
        with q show "?Ex s'" by blast
      qed (simp_all add: NUMBER_TO_ROLLBACK_def)
      then have "call_result (bindM (conditional_add_new_maximum (Pos n) 3 previous) (\<lambda>_. ?r6) (k, s)) k (4 + 1) ?Q4 ?Ex"
        by (rule call_result_bind) (rule step6)
      moreover have "?r45 (k, s) = bindM (conditional_add_new_maximum (Pos n) 3 previous) (\<lambda>_. ?r6) (k, s)"
        using j0 n ps2 ne by (simp add: bindM_getsM it_begin_def bindM_bindM_via_points)
      ultimately show ?thesis by (simp only:)
    qed
  qed

  have step23: "call_result (?r23 (k, s)) k (4 + (4 + 1)) ?Q4 ?Ex" if q: "?Q1 s" for k s
  proof -
    from q have st1: "staged m0 W {?x} {1} s" and ps1: "points s = qs" by simp_all
    show ?thesis
    proof (cases "Suc j' = length E")
      case True
      from multi_next_last [OF v] True have n: "multi_next qs (Pos j) previous = Some End"
        by (simp add: E_def j'_def)
      from True q have "?Q2 s" using staged_mono [OF st1, of "{1, 2}"] by simp
      then have "call_result (?r45 (k, s)) k (4 + 1) ?Q4 ?Ex" by (rule step45)
      moreover have "?r23 (k, s) = ?r45 (k, s)"
        using n ps1 by (simp add: bindM_via_points conditional_add_new_maximum_def bindM_returnM)
      ultimately have "call_result (?r23 (k, s)) k (4 + 1) ?Q4 ?Ex" by (simp only:)
      then show ?thesis by (rule call_result_weaken) simp_all
    next
      case False
      with jE(1) have lt: "Suc j' < length E" by simp
      from multi_next_valid [OF v] False obtain n where
        n: "multi_next qs (Pos j) previous = Some (Pos n)" "valid_skip qs n previous"
           "index_without previous n = Suc j'" by (auto simp: E_def j'_def)
      have new: "without previous qs ! index_without previous n \<notin> {?x}"
        using lt jE(1) nth_eq_iff_index_eq [OF dE] by (auto simp: n(3) E_def [symmetric])
      have "call_result (conditional_add_new_maximum (Pos n) 2 previous (k, s)) k 4 ?Q2 ?Ex"
      proof (rule call_result_weaken [OF conditional_add_staged [OF ps1 st1 dE [unfolded E_def] W n(2) new, of 2 k]])
        fix s' assume "points s' = qs \<and>
           staged m0 W (insert (without previous qs ! index_without previous n) {?x}) (insert 2 {1}) s'"
        moreover have "insert 2 {1} = {1, 2::nat}" by auto
        ultimately show "?Q2 s'" using lt by (simp add: n(3) E_def [symmetric])
      next
        fix s' assume "s' = s"
        with q show "?Ex s'" by blast
      qed (simp_all add: NUMBER_TO_ROLLBACK_def)
      then have "call_result (bindM (conditional_add_new_maximum (Pos n) 2 previous) (\<lambda>_. ?r45) (k, s)) k (4 + (4 + 1)) ?Q4 ?Ex"
        by (rule call_result_bind) (rule step45)
      moreover have "?r23 (k, s) = bindM (conditional_add_new_maximum (Pos n) 2 previous) (\<lambda>_. ?r45) (k, s)"
        using n ps1 by (simp add: bindM_via_points)
      ultimately show ?thesis by (simp only:)
    qed
  qed

  have new1: "without previous qs ! index_without previous j \<notin> {}" by simp
  have step1: "call_result (conditional_add_new_maximum (Pos j) 1 previous (k, s)) k 4 ?Q1 ?Ex"
  proof (rule call_result_weaken [OF conditional_add_staged [OF ps st dE [unfolded E_def] W v new1, of 1 k]])
    fix s' assume "points s' = qs \<and>
       staged m0 W (insert (without previous qs ! index_without previous j) {}) (insert 1 {}) s'"
    then show "?Q1 s'" by (simp add: E_def j'_def)
  next
    fix s' assume "s' = s"
    with ps st show "?Ex s'" by blast
  qed (simp_all add: NUMBER_TO_ROLLBACK_def)
  have "call_result (bindM (conditional_add_new_maximum (Pos j) 1 previous) (\<lambda>_. ?r23) (k, s)) k
      (4 + (4 + (4 + 1))) ?Q4 ?Ex"
    using step1 by (rule call_result_bind) (rule step23)
  then have "call_result (custom_insert_try (Pos j) previous found (k, s)) k (4 + (4 + (4 + 1))) ?Q4 ?Ex"
    unfolding custom_insert_try_def .
  then show ?thesis by (rule call_result_weaken) simp_all
qed

lemma staged_buffers: "staged m0 W T I s \<Longrightarrow> buffers_ok s"
  by (simp add: staged_def)

lemma buffers_ok_update [simp]:
  "buffers_ok (s\<lparr>points := ps\<rparr>) = buffers_ok s"
  "buffers_ok (s\<lparr>maxima := m\<rparr>) = buffers_ok s"
  by (simp_all add: buffers_ok_def)

lemma custom_insert_catch_result:
  assumes st: "staged m0 W T I s" and j: "j < length (points s)"
  shows "custom_insert_catch (Pos j) (k, s) =
           Return () (k, cleared (s\<lparr>points := without (Pos j) (points s), maxima := m0\<rparr>))"
proof -
  let ?s1 = "s\<lparr>points := without (Pos j) (points s)\<rparr>"
  have st1: "staged m0 W T I ?s1" using st by simp
  have "custom_insert_catch (Pos j) (k, s) = bindM rollback_maxima (\<lambda>_. bindM clear_rollback (\<lambda>_. clear_erase)) (k, ?s1)"
    unfolding custom_insert_catch_def using erase_point_apply [OF j, of k] by (rule bindM_Return)
  also have "\<dots> = bindM clear_rollback (\<lambda>_. clear_erase) (k, ?s1\<lparr>maxima := m0\<rparr>)"
    using rollback_maxima_staged [OF st1, of k] by (rule bindM_Return)
  also have "\<dots> = Return () (k, cleared (?s1\<lparr>maxima := m0\<rparr>))"
    using staged_buffers [OF st] by (simp add: clear_both)
  finally show ?thesis by simp
qed

lemma erase_catch_result:
  assumes st: "staged m0 W T I s"
  shows "erase_catch (k, s) = Return () (k, cleared (s\<lparr>maxima := m0\<rparr>))"
proof -
  have "erase_catch (k, s) = bindM clear_rollback (\<lambda>_. clear_erase) (k, s\<lparr>maxima := m0\<rparr>)"
    unfolding erase_catch_def using rollback_maxima_staged [OF st, of k] by (rule bindM_Return)
  also have "\<dots> = Return () (k, cleared (s\<lparr>maxima := m0\<rparr>))"
    using staged_buffers [OF st] by (simp add: clear_both)
  finally show ?thesis .
qed

lemma consistent_initial_staged:
  assumes "consistent s"
  shows "staged (maxima s) W {} {} (s\<lparr>points := qs\<rparr>)"
proof -
  from assms have so: "slots_ok {} s" and bo: "buffers_ok s" and sm: "sorted_wrt compare_maxima (maxima s)"
    by (simp_all add: consistent_def)
  from so have "staged_ins s = {}" "staged_del s = {}"
    by (auto simp: slots_ok_def staged_ins_def staged_del_def)
  with so bo sm have "staged (maxima s) W {} {} s" by (simp add: staged_def)
  then show ?thesis by simp
qed

lemma consistent_committed:
  assumes st: "staged m0 W T I s" and rest: "\<And>p. p \<notin> T \<Longrightarrow> p \<in> set m0 \<longleftrightarrow> p \<in> W"
    and sp: "sorted_wrt compare_points ps" and W: "W = set (local_maxima ps)"
  shows "consistent (cleared (s\<lparr>maxima := filter (\<lambda>q. q \<notin> staged_del s) (maxima s), points := ps\<rparr>))"
proof -
  let ?s' = "s\<lparr>maxima := filter (\<lambda>q. q \<notin> staged_del s) (maxima s), points := ps\<rparr>"
  from st have "buffers_ok ?s'" by (simp add: staged_def)
  then have "buffers_ok (cleared ?s')" "slots_ok {} (cleared ?s')" using cleared_ok by blast+
  moreover from st have "sorted_wrt compare_maxima (maxima (cleared ?s'))"
    by (simp add: staged_def sorted_wrt_filter_any)
  moreover have "set (maxima (cleared ?s')) = set (local_maxima (points (cleared ?s')))"
    using committed_maxima [OF st rest] W by simp
  ultimately show ?thesis using sp by (simp add: consistent_def)
qed

lemma consistent_rolled_back:
  assumes st: "staged (maxima s0) W T I s" and "consistent s0"
  shows "consistent (cleared (s\<lparr>points := points s0, maxima := maxima s0\<rparr>))"
proof -
  let ?s' = "s\<lparr>points := points s0, maxima := maxima s0\<rparr>"
  from st have "buffers_ok ?s'" by (simp add: staged_def)
  then have "buffers_ok (cleared ?s')" "slots_ok {} (cleared ?s')" using cleared_ok by blast+
  with assms(2) show ?thesis by (simp add: consistent_def)
qed

lemma equivalent_result:
  "step_result (equivalent v w (k, s)) k 2 (v = w) s s"
proof -
  have "k = 0 \<or> k = 1 \<or> 2 \<le> k" by arith
  then show ?thesis
    by (elim disjE) (auto simp: equivalent_def less_V_apply bindM_def step_result_def)
qed

lemma call_result_bind_step:
  assumes "step_result (m (k, s)) k c r s1 s_thr" and "E s_thr"
    and "\<And>k'. k' \<le> k \<Longrightarrow> k \<le> k' + c \<Longrightarrow> call_result (f r (k', s1)) k' d Q E"
  shows "call_result (bindM m f (k, s)) k (c + d) Q E"
proof -
  from assms(1) consider
    (ret) k' where "m (k, s) = Return r (k', s1)" "k' \<le> k" "k \<le> k' + c"
    | (thr) "m (k, s) = Throw ComparisonFailure (0, s_thr)" "k < c"
    unfolding step_result_def by blast
  then show ?thesis
  proof cases
    case ret
    from assms(3) [OF ret(2,3)] ret show ?thesis
      unfolding call_result_def by (simp add: bindM_def) (elim disjE exE conjE; force)
  next
    case thr
    with assms(2) show ?thesis unfolding call_result_def by (simp add: bindM_def)
  qed
qed

lemma insert_point_apply:
  "points_insert (points s) p = (qs, it) \<Longrightarrow> insert_point p (k, s) = Return it (k, s\<lparr>points := qs\<rparr>)"
  by (simp add: insert_point_def)

lemma commit_apply:
  assumes st: "staged m0 W T I s"
  shows "bindM erase_from_maxima (\<lambda>_. bindM clear_rollback (\<lambda>_. clear_erase)) (k, s) =
           Return () (k, cleared (s\<lparr>maxima := filter (\<lambda>q. q \<notin> staged_del s) (maxima s)\<rparr>))"
proof -
  have "bindM erase_from_maxima (\<lambda>_. bindM clear_rollback (\<lambda>_. clear_erase)) (k, s) =
      bindM clear_rollback (\<lambda>_. clear_erase) (k, s\<lparr>maxima := filter (\<lambda>q. q \<notin> staged_del s) (maxima s)\<rparr>)"
    using erase_from_maxima_staged [OF st, of k] by (rule bindM_Return)
  also have "\<dots> = Return () (k, cleared (s\<lparr>maxima := filter (\<lambda>q. q \<notin> staged_del s) (maxima s)\<rparr>))"
    using staged_buffers [OF st] by (simp add: clear_both)
  finally show ?thesis .
qed

lemma custom_insert_commit:
  fixes s :: "('a::linorder, 'v::linorder) FunctionMaxima"
  assumes wf: "consistent s"
    and ins: "points_insert (points s) (Point a v) = (qs, Pos j)" and j: "j < length qs"
    and pv: "previous = End \<or> (0 < j \<and> previous = Pos (j - 1))"
    and d: "distinct qs" and bk: "without (Pos j) qs = points s"
    and sE: "sorted_wrt compare_points (without previous qs)"
    and loc: "\<And>p. p \<noteq> without previous qs ! index_without previous j \<Longrightarrow>
        (0 < index_without previous j \<Longrightarrow> p \<noteq> without previous qs ! (index_without previous j - 1)) \<Longrightarrow>
        (Suc (index_without previous j) < length (without previous qs) \<Longrightarrow>
            p \<noteq> without previous qs ! Suc (index_without previous j)) \<Longrightarrow>
        (previous \<noteq> End \<Longrightarrow> p \<noteq> qs ! (j - 1)) \<Longrightarrow>
        p \<in> set (local_maxima (points s)) \<longleftrightarrow> p \<in> set (local_maxima (without previous qs))"
  shows "call_result
     (bindM (insert_point (Point a v)) (\<lambda>it.
      bindM (try_catch_rethrow (custom_insert_try it previous (previous \<noteq> End)) (custom_insert_catch it)) (\<lambda>_.
      bindM erase_from_maxima (\<lambda>_.
      bindM clear_rollback (\<lambda>_.
      clear_erase)))) (k, s)) k 13
     (\<lambda>s'. consistent s' \<and> points s' = without previous qs)
     (\<lambda>s'. consistent s' \<and> points s' = points s \<and> maxima s' = maxima s)"
proof -
  let ?E = "without previous qs" and ?j = "index_without previous j"
  let ?W = "set (local_maxima ?E)"
  let ?s1 = "s\<lparr>points := qs\<rparr>"
  let ?Q4 = "\<lambda>s'. points s' = ?E \<and>
        (\<exists>T I. staged (maxima s) ?W T I s' \<and> ?E ! ?j \<in> T \<and> (0 < ?j \<longrightarrow> ?E ! (?j - 1) \<in> T) \<and>
               (Suc ?j < length ?E \<longrightarrow> ?E ! Suc ?j \<in> T) \<and> ((previous \<noteq> End) \<longrightarrow> qs ! (j - 1) \<in> T))"
  let ?Ex1 = "\<lambda>s'. points s' = qs \<and> (\<exists>T I. staged (maxima s) ?W T I s')"
  let ?Q = "\<lambda>s'. consistent s' \<and> points s' = ?E"
  let ?Ex = "\<lambda>s'. consistent s' \<and> points s' = points s \<and> maxima s' = maxima s"
  let ?commit = "bindM erase_from_maxima (\<lambda>_. bindM clear_rollback (\<lambda>_. clear_erase))"
  from wf have m0: "set (maxima s) = set (local_maxima (points s))" by (simp add: consistent_def)
  have st1: "staged (maxima s) ?W {} {} ?s1" using wf by (rule consistent_initial_staged)
  have tr: "call_result (custom_insert_try (Pos j) previous (previous \<noteq> End) (k, ?s1)) k 13 ?Q4 ?Ex1"
    by (rule custom_insert_try_result [OF _ st1 pv j d]) simp_all
  have handler: "\<exists>s''. custom_insert_catch (Pos j) (0, s') = Return () (0, s'') \<and> ?Ex s''" if "?Ex1 s'" for s'
  proof -
    from that obtain T I where st: "staged (maxima s) ?W T I s'" and ps: "points s' = qs" by blast
    from j ps have "j < length (points s')" by simp
    from custom_insert_catch_result [OF st this, of 0] ps bk
    have "custom_insert_catch (Pos j) (0, s') = Return () (0, cleared (s'\<lparr>points := points s, maxima := maxima s\<rparr>))"
      by simp
    moreover have "consistent (cleared (s'\<lparr>points := points s, maxima := maxima s\<rparr>))"
      using st wf by (rule consistent_rolled_back)
    ultimately show ?thesis by simp
  qed
  have "call_result (try_catch_rethrow (custom_insert_try (Pos j) previous (previous \<noteq> End))
           (custom_insert_catch (Pos j)) (k, ?s1)) k 13 ?Q4 ?Ex"
    using tr handler by (rule call_result_try)
  then have "call_result (bindM (try_catch_rethrow (custom_insert_try (Pos j) previous (previous \<noteq> End))
           (custom_insert_catch (Pos j))) (\<lambda>_. ?commit) (k, ?s1)) k (13 + 0) ?Q ?Ex"
  proof (rule call_result_bind)
    fix k' s' assume q: "?Q4 s'"
    then have ps: "points s' = ?E" by simp
    from q have "\<exists>T I. staged (maxima s) ?W T I s' \<and> ?E ! ?j \<in> T \<and> (0 < ?j \<longrightarrow> ?E ! (?j - 1) \<in> T) \<and>
               (Suc ?j < length ?E \<longrightarrow> ?E ! Suc ?j \<in> T) \<and> ((previous \<noteq> End) \<longrightarrow> qs ! (j - 1) \<in> T)"
      by (rule conjunct2)
    then obtain T I where TI: "staged (maxima s) ?W T I s' \<and> ?E ! ?j \<in> T \<and> (0 < ?j \<longrightarrow> ?E ! (?j - 1) \<in> T) \<and>
               (Suc ?j < length ?E \<longrightarrow> ?E ! Suc ?j \<in> T) \<and> ((previous \<noteq> End) \<longrightarrow> qs ! (j - 1) \<in> T)"
      by (elim exE)
    then have st: "staged (maxima s) ?W T I s'"
      and T: "?E ! ?j \<in> T" "0 < ?j \<Longrightarrow> ?E ! (?j - 1) \<in> T" "Suc ?j < length ?E \<Longrightarrow> ?E ! Suc ?j \<in> T"
        "previous \<noteq> End \<Longrightarrow> qs ! (j - 1) \<in> T"
      by simp_all
    have rest: "p \<in> set (maxima s) \<longleftrightarrow> p \<in> ?W" if "p \<notin> T" for p
      unfolding m0 using that T by (intro loc) auto
    let ?s'' = "s'\<lparr>maxima := filter (\<lambda>q. q \<notin> staged_del s') (maxima s'), points := ?E\<rparr>"
    have "consistent (cleared ?s'')"
      by (rule consistent_committed [OF st rest sE refl])
    moreover have "?s'' = s'\<lparr>maxima := filter (\<lambda>q. q \<notin> staged_del s') (maxima s')\<rparr>"
      using ps by simp
    ultimately have "?Q (cleared (s'\<lparr>maxima := filter (\<lambda>q. q \<notin> staged_del s') (maxima s')\<rparr>))"
      using ps by simp
    then show "call_result (?commit (k', s')) k' 0 ?Q ?Ex"
      unfolding commit_apply [OF st] by (rule call_result_return)
  qed
  then show ?thesis
    using insert_point_apply [OF ins, of k] by (simp add: bindM_Return)
qed

lemma without_insert_at:
  "j \<le> length ps \<Longrightarrow> without (Pos j) (take j ps @ x # drop j ps) = ps"
  by (simp add: min_def)

lemma custom_insert_absent:
  fixes s :: "('a::linorder, 'v::linorder) FunctionMaxima"
  assumes wf: "consistent s" and e: "points_find (points s) a = End"
  shows "call_result
     (bindM (insert_point (Point a v)) (\<lambda>it.
      bindM (try_catch_rethrow (custom_insert_try it End (End \<noteq> End)) (custom_insert_catch it)) (\<lambda>_.
      bindM erase_from_maxima (\<lambda>_.
      bindM clear_rollback (\<lambda>_.
      clear_erase)))) (k, s)) k 13
     (\<lambda>s'. consistent s' \<and> points s' = assigned a v (points s))
     (\<lambda>s'. consistent s' \<and> points s' = points s \<and> maxima s' = maxima s)"
proof -
  let ?ps = "points s"
  from wf have sp: "sorted_wrt compare_points ?ps" by (simp add: consistent_def)
  with e have "arg (Point a v) \<notin> arg ` set ?ps" by (simp add: points_find_End)
  from points_insert_absent [OF sp this] obtain j where
    ins: "points_insert ?ps (Point a v) = (take j ?ps @ Point a v # drop j ?ps, Pos j)"
    and j: "j \<le> length ?ps" and sq: "sorted_wrt compare_points (take j ?ps @ Point a v # drop j ?ps)"
    by blast
  let ?qs = "take j ?ps @ Point a v # drop j ?ps"
  from j have jq: "j < length ?qs" by simp
  have bk: "without (Pos j) ?qs = ?ps" using j by (rule without_insert_at)
  have "call_result
     (bindM (insert_point (Point a v)) (\<lambda>it.
      bindM (try_catch_rethrow (custom_insert_try it End (End \<noteq> End)) (custom_insert_catch it)) (\<lambda>_.
      bindM erase_from_maxima (\<lambda>_.
      bindM clear_rollback (\<lambda>_.
      clear_erase)))) (k, s)) k 13
     (\<lambda>s'. consistent s' \<and> points s' = without End ?qs)
     (\<lambda>s'. consistent s' \<and> points s' = points s \<and> maxima s' = maxima s)"
  proof (rule custom_insert_commit [OF wf ins jq _ _ bk])
    show "End = End \<or> 0 < j \<and> End = Pos (j - 1)" by simp
    show "distinct ?qs" using sq by (rule sorted_points_distinct)
    show "sorted_wrt compare_points (without End ?qs)" using sq by simp
    fix p
    assume "p \<noteq> without End ?qs ! index_without End j"
      "0 < index_without End j \<Longrightarrow> p \<noteq> without End ?qs ! (index_without End j - 1)"
      "Suc (index_without End j) < length (without End ?qs) \<Longrightarrow> p \<noteq> without End ?qs ! Suc (index_without End j)"
    then have "p \<in> set (local_maxima ?qs) \<longleftrightarrow> p \<in> set (local_maxima (without (Pos j) ?qs))"
      using jq by (intro local_maxima_without) simp_all
    then show "p \<in> set (local_maxima ?ps) \<longleftrightarrow> p \<in> set (local_maxima (without End ?qs))"
      unfolding bk by simp
  qed
  moreover have "assigned a v ?ps = ?qs" using e ins by (simp add: assigned_def)
  ultimately show ?thesis by simp
qed

lemma without_insert_after:
  assumes "i < length ps"
  shows "without (Pos i) (take (Suc i) ps @ x # drop (Suc i) ps) = ps[i := x]"
    and "without (Pos (Suc i)) (take (Suc i) ps @ x # drop (Suc i) ps) = ps"
    and "(take (Suc i) ps @ x # drop (Suc i) ps) ! i = ps ! i"
proof -
  from assms have t: "take i (take (Suc i) ps @ x # drop (Suc i) ps) = take i ps"
    by (simp add: min_def)
  from assms have d: "drop (Suc i) (take (Suc i) ps @ x # drop (Suc i) ps) = x # drop (Suc i) ps"
    by (simp add: min_def)
  show "without (Pos i) (take (Suc i) ps @ x # drop (Suc i) ps) = ps[i := x]"
    using assms t d by (simp add: upd_conv_take_nth_drop del: take_append drop_append)
  from assms show "without (Pos (Suc i)) (take (Suc i) ps @ x # drop (Suc i) ps) = ps"
    by (simp add: min_def)
  from assms show "(take (Suc i) ps @ x # drop (Suc i) ps) ! i = ps ! i"
    by (simp add: nth_append)
qed

lemma without_update: "without (Pos i) (ps[i := x]) = without (Pos i) ps"
  by simp

lemma distinct_insert_new:
  assumes "distinct ps" "x \<notin> set ps"
  shows "distinct (take n ps @ x # drop n ps)"
proof -
  from assms(1) have "distinct (take n ps @ drop n ps)" by simp
  then have "distinct (take n ps)" "distinct (drop n ps)" "set (take n ps) \<inter> set (drop n ps) = {}"
    unfolding distinct_append by simp_all
  moreover from assms(2) have "x \<notin> set (take n ps)" "x \<notin> set (drop n ps)"
    by (auto dest: in_set_takeD in_set_dropD)
  ultimately show ?thesis by simp
qed

lemma custom_insert_present:
  fixes s :: "('a::linorder, 'v::linorder) FunctionMaxima"
  assumes wf: "consistent s" and e: "points_find (points s) a = Pos i" and ne: "v \<noteq> val (points s ! i)"
  shows "call_result
     (bindM (insert_point (Point a v)) (\<lambda>it.
      bindM (try_catch_rethrow (custom_insert_try it (Pos i) (Pos i \<noteq> End)) (custom_insert_catch it)) (\<lambda>_.
      bindM erase_from_maxima (\<lambda>_.
      bindM clear_rollback (\<lambda>_.
      clear_erase)))) (k, s)) k 13
     (\<lambda>s'. consistent s' \<and> points s' = assigned a v (points s))
     (\<lambda>s'. consistent s' \<and> points s' = points s \<and> maxima s' = maxima s)"
proof -
  let ?ps = "points s" and ?x = "Point a v"
  let ?qs = "take (Suc i) ?ps @ ?x # drop (Suc i) ?ps"
  let ?E = "?ps[i := ?x]"
  from wf have sp: "sorted_wrt compare_points ?ps" by (simp add: consistent_def)
  from points_find_Pos [OF e] have "i < length ?ps \<and> arg (?ps ! i) = a" by blast
  then have i: "i < length ?ps" and a: "arg (?ps ! i) = arg ?x" by simp_all
  have ins: "points_insert ?ps ?x = (?qs, Pos (Suc i))"
    using sp i a by (rule points_insert_present)
  from i have jq: "Suc i < length ?qs" by simp
  have E: "without (Pos i) ?qs = ?E" and bk: "without (Pos (Suc i)) ?qs = ?ps" and old: "?qs ! i = ?ps ! i"
    using without_insert_after [OF i] by blast+
  have xn: "?x \<notin> set ?ps"
  proof
    assume "?x \<in> set ?ps"
    then obtain n where n: "n < length ?ps" "?ps ! n = ?x" by (auto simp: in_set_conv_nth)
    with sp have "points_find ?ps a = Pos n" using points_find_present [of ?ps n] by simp
    with e n ne show False by simp
  qed
  have lenE: "length ?E = length ?ps" by simp
  have "call_result
     (bindM (insert_point ?x) (\<lambda>it.
      bindM (try_catch_rethrow (custom_insert_try it (Pos i) (Pos i \<noteq> End)) (custom_insert_catch it)) (\<lambda>_.
      bindM erase_from_maxima (\<lambda>_.
      bindM clear_rollback (\<lambda>_.
      clear_erase)))) (k, s)) k 13
     (\<lambda>s'. consistent s' \<and> points s' = without (Pos i) ?qs)
     (\<lambda>s'. consistent s' \<and> points s' = points s \<and> maxima s' = maxima s)"
  proof (rule custom_insert_commit [OF wf ins jq _ _ bk])
    show "Pos i = End \<or> 0 < Suc i \<and> Pos i = Pos (Suc i - 1)" by simp
    show "distinct ?qs" using sorted_points_distinct [OF sp] xn by (rule distinct_insert_new)
    show "sorted_wrt compare_points (without (Pos i) ?qs)"
      unfolding E using sp i a by (rule sorted_points_update)
    fix p
    assume "p \<noteq> without (Pos i) ?qs ! index_without (Pos i) (Suc i)"
      "0 < index_without (Pos i) (Suc i) \<Longrightarrow> p \<noteq> without (Pos i) ?qs ! (index_without (Pos i) (Suc i) - 1)"
      "Suc (index_without (Pos i) (Suc i)) < length (without (Pos i) ?qs) \<Longrightarrow>
         p \<noteq> without (Pos i) ?qs ! Suc (index_without (Pos i) (Suc i))"
      "Pos i \<noteq> End \<Longrightarrow> p \<noteq> ?qs ! (Suc i - 1)"
    then have p: "p \<noteq> ?E ! i" "0 < i \<Longrightarrow> p \<noteq> ?E ! (i - 1)" "Suc i < length ?ps \<Longrightarrow> p \<noteq> ?E ! Suc i"
      "p \<noteq> ?ps ! i"
      unfolding E lenE using old by simp_all
    from p i have "p \<in> set (local_maxima ?ps) \<longleftrightarrow> p \<in> set (local_maxima (without (Pos i) ?ps))"
      by (intro local_maxima_without) simp_all
    moreover from p i have "p \<in> set (local_maxima ?E) \<longleftrightarrow> p \<in> set (local_maxima (without (Pos i) ?E))"
      by (intro local_maxima_without) simp_all
    ultimately show "p \<in> set (local_maxima ?ps) \<longleftrightarrow> p \<in> set (local_maxima (without (Pos i) ?qs))"
      unfolding E without_update by simp
  qed
  moreover have "assigned a v ?ps = ?E" using e ne by (simp add: assigned_def)
  ultimately show ?thesis unfolding E by simp
qed

lemma custom_insert_result:
  fixes s :: "('a::linorder, 'v::linorder) FunctionMaxima"
  assumes wf: "consistent s"
  shows "call_result (custom_insert a v (k, s)) k 15
     (\<lambda>s'. consistent s' \<and> points s' = assigned a v (points s))
     (\<lambda>s'. consistent s' \<and> points s' = points s \<and> maxima s' = maxima s)"
proof (cases "points_find (points s) a")
  case End
  let ?tail = "bindM (insert_point (Point a v)) (\<lambda>it.
      bindM (try_catch_rethrow (custom_insert_try it End (End \<noteq> End)) (custom_insert_catch it)) (\<lambda>_.
      bindM erase_from_maxima (\<lambda>_.
      bindM clear_rollback (\<lambda>_.
      clear_erase))))"
  have eq: "custom_insert a v (k, s) = ?tail (k, s)"
    using End by (simp add: custom_insert_def bindM_getsM bindM_returnM Let_def)
  have "call_result (custom_insert a v (k, s)) k 13
     (\<lambda>s'. consistent s' \<and> points s' = assigned a v (points s))
     (\<lambda>s'. consistent s' \<and> points s' = points s \<and> maxima s' = maxima s)"
    unfolding eq by (rule custom_insert_absent [OF wf End])
  then show ?thesis
    by (rule call_result_weaken) (use End in simp_all)
next
  case (Pos i)
  let ?w = "val (points s ! i)"
  let ?tail = "bindM (insert_point (Point a v)) (\<lambda>it.
      bindM (try_catch_rethrow (custom_insert_try it (Pos i) (Pos i \<noteq> End)) (custom_insert_catch it)) (\<lambda>_.
      bindM erase_from_maxima (\<lambda>_.
      bindM clear_rollback (\<lambda>_.
      clear_erase))))"
  let ?Q = "\<lambda>s'. consistent s' \<and> points s' = assigned a v (points s)"
  let ?Ex = "\<lambda>s'. consistent s' \<and> points s' = points s \<and> maxima s' = maxima s"
  from points_find_Pos [OF Pos] have i: "i < length (points s)" by simp
  have eq: "custom_insert a v (k, s) =
      bindM (equivalent v ?w) (\<lambda>same. if same then returnM () else ?tail) (k, s)"
    using Pos i by (simp add: custom_insert_def bindM_getsM bindM_bindM_via_points Let_def cong: if_cong)
  have "call_result (bindM (equivalent v ?w) (\<lambda>same. if same then returnM () else ?tail) (k, s)) k (2 + 13) ?Q ?Ex"
  proof (rule call_result_bind_step [where r = "v = ?w" and ?s1.0 = s and s_thr = s])
    show "step_result (equivalent v ?w (k, s)) k 2 (v = ?w) s s" by (rule equivalent_result)
    show "?Ex s" using wf by simp
    fix k'
    show "call_result ((if v = ?w then returnM () else ?tail) (k', s)) k' 13 ?Q ?Ex"
    proof (cases "v = ?w")
      case True
      have "points s = assigned a v (points s)" using Pos True by (simp add: assigned_def)
      then have "?Q s" using wf by simp
      with True show ?thesis by (simp add: call_result_return)
    next
      case False
      have "call_result (?tail (k', s)) k' 13 ?Q ?Ex"
        by (rule custom_insert_present [OF wf Pos False])
      with False show ?thesis by simp
    qed
  qed
  then show ?thesis unfolding eq by simp
qed

lemma call_result_cost:
  "call_result out k c Q E \<Longrightarrow> c \<le> c' \<Longrightarrow> call_result out k c' Q E"
  by (erule call_result_weaken)

lemma erase_try_result:
  fixes ps :: "('a::linorder, 'v::linorder) point_type list"
  assumes ps: "points s = ps" and st: "staged m0 W {} {} s" and i: "i < length ps"
    and d: "distinct ps" and W: "W = set (local_maxima (without (Pos i) ps))"
    and it2: "it2 = (if ps ! i \<in> set (maxima s) then Some (ps ! i) else None)"
  shows "call_result (erase_try (Pos i) it2 (k, s)) k 8
     (\<lambda>s'. points s' = ps \<and>
        (\<exists>T I. staged m0 W T I s' \<and> ps ! i \<in> T \<and> (0 < i \<longrightarrow> ps ! (i - 1) \<in> T) \<and>
               (Suc i < length ps \<longrightarrow> ps ! Suc i \<in> T)))
     (\<lambda>s'. points s' = ps \<and> (\<exists>T I. staged m0 W T I s'))"
proof -
  let ?E = "without (Pos i) ps" and ?old = "ps ! i"
  let ?T2 = "if Suc i < length ps then {ps ! Suc i, ?old} else {?old}"
  let ?T3 = "insert (ps ! (i - 1)) ?T2"
  let ?Q1 = "\<lambda>s'. points s' = ps \<and> staged m0 W {?old} {0} s'"
  let ?Q2 = "\<lambda>s'. points s' = ps \<and> staged m0 W ?T2 {0, 2} s'"
  let ?Q = "\<lambda>s'. points s' = ps \<and>
        (\<exists>T I. staged m0 W T I s' \<and> ps ! i \<in> T \<and> (0 < i \<longrightarrow> ps ! (i - 1) \<in> T) \<and>
               (Suc i < length ps \<longrightarrow> ps ! Suc i \<in> T))"
  let ?Ex = "\<lambda>s'. points s' = ps \<and> (\<exists>T I. staged m0 W T I s')"
  let ?r3 = "bindM (via_points (\<lambda>ps. std_prev ps (Pos i))) (\<lambda>l. conditional_add_new_maximum l 3 (Pos i))"
  let ?r2 = "bindM (via_points (\<lambda>ps. std_next ps (Pos i))) (\<lambda>n.
     bindM (conditional_add_new_maximum n 2 (Pos i)) (\<lambda>_. ?r3))"
  from d have dE: "distinct ?E" by (rule distinct_without)
  have WE: "W \<subseteq> set ?E" unfolding W by (rule local_maxima_subset)
  from d i have oldE: "?old \<notin> set ?E" by (rule nth_notin_without)
  with WE have oldW: "?old \<notin> W" by blast
  have lenE: "length ?E = length ps - 1" using i by (rule length_without_Pos)
  have nthE: "?E ! n = (if n < i then ps ! n else ps ! Suc n)" if "n < length ps - 1" for n
    using i that by (rule without_Pos_nth)

  have step3: "call_result (?r3 (k, s)) k 4 ?Q ?Ex" if q: "?Q2 s" for k s
  proof (cases "i = 0")
    case True
    from q have st2: "staged m0 W ?T2 {0, 2} s" and ps2: "points s = ps" by simp_all
    have "ps ! i \<in> ?T2" "Suc i < length ps \<Longrightarrow> ps ! Suc i \<in> ?T2" by simp_all
    with st2 ps2 True have "?Q s" by blast
    moreover have "?r3 (k, s) = Return () (k, s)"
      using True i ps2 by (auto simp: bindM_via_points conditional_add_new_maximum_def)
    ultimately show ?thesis by (simp only: call_result_return)
  next
    case False
    from q have st2: "staged m0 W ?T2 {0, 2} s" and ps2: "points s = ps" by simp_all
    from False i have v: "valid_skip ps (i - 1) (Pos i)" by (auto simp: valid_skip_def)
    from False i have e: "?E ! (i - 1) = ps ! (i - 1)" by (simp add: nth_append)
    from False have ix: "index_without (Pos i) (i - 1) = i - 1" by simp
    have "ps ! (i - 1) \<notin> ?T2"
      using False i nth_eq_iff_index_eq [OF d] by auto
    then have new: "without (Pos i) ps ! index_without (Pos i) (i - 1) \<notin> ?T2"
      unfolding ix e .
    have "call_result (conditional_add_new_maximum (Pos (i - 1)) 3 (Pos i) (k, s)) k 4 ?Q ?Ex"
    proof (rule call_result_weaken [OF conditional_add_staged [OF ps2 st2 dE W v new, of 3 k]])
      fix s' assume a: "points s' = ps \<and>
         staged m0 W (insert (without (Pos i) ps ! index_without (Pos i) (i - 1)) ?T2) (insert 3 {0, 2}) s'"
      then have "staged m0 W ?T3 (insert 3 {0, 2}) s'" unfolding ix e by simp
      moreover have "ps ! i \<in> ?T3" "ps ! (i - 1) \<in> ?T3" "Suc i < length ps \<Longrightarrow> ps ! Suc i \<in> ?T3"
        by simp_all
      ultimately show "?Q s'" using a False by blast
    next
      fix s' assume "s' = s"
      with q show "?Ex s'" by blast
    qed (simp_all add: NUMBER_TO_ROLLBACK_def)
    moreover have "?r3 (k, s) = conditional_add_new_maximum (Pos (i - 1)) 3 (Pos i) (k, s)"
      using False i ps2 by (simp add: bindM_via_points)
    ultimately show ?thesis by (simp only:)
  qed

  have step2: "call_result (?r2 (k, s)) k (4 + 4) ?Q ?Ex" if q: "?Q1 s" for k s
  proof -
    from q have st1: "staged m0 W {?old} {0} s" and ps1: "points s = ps" by simp_all
    show ?thesis
    proof (cases "Suc i < length ps")
      case False
      with q have "?Q2 s" using staged_mono [OF st1, of "{0, 2}"] by simp
      then have "call_result (?r3 (k, s)) k 4 ?Q ?Ex" by (rule step3)
      moreover have "?r2 (k, s) = ?r3 (k, s)"
        using False i ps1 by (simp add: bindM_via_points conditional_add_new_maximum_def bindM_returnM)
      ultimately have "call_result (?r2 (k, s)) k 4 ?Q ?Ex" by (simp only:)
      then show ?thesis by (rule call_result_cost) simp
    next
      case True
      then have v: "valid_skip ps (Suc i) (Pos i)" by (simp add: valid_skip_def)
      have ix: "index_without (Pos i) (Suc i) = i" by simp
      from True have e: "?E ! i = ps ! Suc i" by (simp add: nth_append min_def)
      have "ps ! Suc i \<notin> {?old}" using True nth_eq_iff_index_eq [OF d, of "Suc i" i] by simp
      then have new: "without (Pos i) ps ! index_without (Pos i) (Suc i) \<notin> {?old}"
        unfolding ix e .
      have "call_result (conditional_add_new_maximum (Pos (Suc i)) 2 (Pos i) (k, s)) k 4 ?Q2 ?Ex"
      proof (rule call_result_weaken [OF conditional_add_staged [OF ps1 st1 dE W v new, of 2 k]])
        fix s' assume a: "points s' = ps \<and>
           staged m0 W (insert (without (Pos i) ps ! index_without (Pos i) (Suc i)) {?old}) (insert 2 {0}) s'"
        moreover have "insert 2 {0} = {0, 2::nat}" by auto
        ultimately show "?Q2 s'" unfolding ix e using True by simp
      next
        fix s' assume "s' = s"
        with q show "?Ex s'" by blast
      qed (simp_all add: NUMBER_TO_ROLLBACK_def)
      then have "call_result (bindM (conditional_add_new_maximum (Pos (Suc i)) 2 (Pos i)) (\<lambda>_. ?r3) (k, s)) k (4 + 4) ?Q ?Ex"
        by (rule call_result_bind) (rule step3)
      moreover have "?r2 (k, s) = bindM (conditional_add_new_maximum (Pos (Suc i)) 2 (Pos i)) (\<lambda>_. ?r3) (k, s)"
        using True ps1 by (simp add: bindM_via_points)
      ultimately show ?thesis by (simp only:)
    qed
  qed

  have "staged m0 W (insert ?old {}) (insert 0 {}) (staged_result s 0 ?old False)"
    by (rule staged_step [OF st]) (simp_all add: NUMBER_TO_ERASE_def oldW)
  then have q1: "?Q1 (staged_result s 0 ?old False)" using ps by simp
  have first: "(if it2 \<noteq> None
            then modifyM (\<lambda>s. s\<lparr>to_erase := (to_erase s)[0 := it2],
                                 if_erase := (if_erase s)[0 := True]\<rparr>)
            else returnM ()) (k, s) = Return () (k, staged_result s 0 ?old False)"
    unfolding it2 by (simp add: staged_result_def)
  have "erase_try (Pos i) it2 (k, s) = ?r2 (k, staged_result s 0 ?old False)"
    unfolding erase_try_def using first by (rule bindM_Return)
  with step2 [OF q1, of k] show ?thesis by simp
qed

lemma mx_find_result:
  "sorted_wrt compare_maxima (maxima s) \<Longrightarrow>
   step_result (mx_find p (k, s)) k 1 (if p \<in> set (maxima s) then Some p else None) s s"
  by (auto simp: step_result_def mx_find_apply set_find_sorted)

lemma erase_commit_apply:
  assumes st: "staged m0 W T I s" and i: "i < length (points s)"
  shows "bindM erase_from_maxima (\<lambda>_. bindM (erase_point (Pos i)) (\<lambda>_. bindM clear_rollback (\<lambda>_. clear_erase))) (k, s) =
           Return () (k, cleared (s\<lparr>maxima := filter (\<lambda>q. q \<notin> staged_del s) (maxima s),
                                     points := without (Pos i) (points s)\<rparr>))"
proof -
  let ?s1 = "s\<lparr>maxima := filter (\<lambda>q. q \<notin> staged_del s) (maxima s)\<rparr>"
  let ?s2 = "?s1\<lparr>points := without (Pos i) (points s)\<rparr>"
  have "bindM erase_from_maxima (\<lambda>_. bindM (erase_point (Pos i)) (\<lambda>_. bindM clear_rollback (\<lambda>_. clear_erase))) (k, s) =
      bindM (erase_point (Pos i)) (\<lambda>_. bindM clear_rollback (\<lambda>_. clear_erase)) (k, ?s1)"
    using erase_from_maxima_staged [OF st, of k] by (rule bindM_Return)
  also have "\<dots> = bindM clear_rollback (\<lambda>_. clear_erase) (k, ?s2)"
    using erase_point_apply [of i ?s1 k] i by (simp add: bindM_Return)
  also have "\<dots> = Return () (k, cleared ?s2)"
    using staged_buffers [OF st] by (simp add: clear_both)
  finally show ?thesis .
qed

lemma erase_absent:
  "points_find (points s) a = End \<Longrightarrow> erase a (k, s) = Return () (k, s)"
  by (simp add: erase_def bindM_getsM)

lemma erase_result:
  fixes s :: "('a::linorder, 'v::linorder) FunctionMaxima"
  assumes wf: "consistent s"
  shows "call_result (erase a (k, s)) k 9
     (\<lambda>s'. consistent s' \<and> points s' = erased a (points s))
     (\<lambda>s'. consistent s' \<and> points s' = points s \<and> maxima s' = maxima s)"
proof (cases "points_find (points s) a")
  case End
  then have "erased a (points s) = points s" by (simp add: erased_def)
  with wf have "consistent s \<and> points s = erased a (points s)"
    by simp
  then show ?thesis unfolding erase_absent [OF End] by (rule call_result_return)
next
  case (Pos i)
  let ?ps = "points s" and ?m0 = "maxima s"
  let ?old = "?ps ! i" and ?E = "without (Pos i) ?ps"
  let ?W = "set (local_maxima ?E)"
  let ?Q = "\<lambda>s'. consistent s' \<and> points s' = erased a ?ps"
  let ?Ex = "\<lambda>s'. consistent s' \<and> points s' = ?ps \<and> maxima s' = ?m0"
  let ?Qt = "\<lambda>s'. points s' = ?ps \<and>
        (\<exists>T I. staged ?m0 ?W T I s' \<and> ?ps ! i \<in> T \<and> (0 < i \<longrightarrow> ?ps ! (i - 1) \<in> T) \<and>
               (Suc i < length ?ps \<longrightarrow> ?ps ! Suc i \<in> T))"
  let ?Et = "\<lambda>s'. points s' = ?ps \<and> (\<exists>T I. staged ?m0 ?W T I s')"
  let ?commit = "bindM erase_from_maxima (\<lambda>_. bindM (erase_point (Pos i)) (\<lambda>_. bindM clear_rollback (\<lambda>_. clear_erase)))"
  let ?rest = "\<lambda>it2. bindM (try_catch_rethrow (erase_try (Pos i) it2) erase_catch) (\<lambda>_. ?commit)"
  from wf have sp: "sorted_wrt compare_points ?ps" and sm: "sorted_wrt compare_maxima ?m0"
    and m0: "set ?m0 = set (local_maxima ?ps)" by (simp_all add: consistent_def)
  from points_find_Pos [OF Pos] have i: "i < length ?ps" by simp
  from sp have d: "distinct ?ps" by (rule sorted_points_distinct)
  from sp have sE: "sorted_wrt compare_points ?E" by (rule sorted_points_without)
  have er: "erased a ?ps = ?E" using Pos by (simp add: erased_def)
  have st0: "staged ?m0 ?W {} {} s"
    using consistent_initial_staged [OF wf, of ?W ?ps] by simp
  have eq: "erase a (k, s) = bindM (mx_find ?old) ?rest (k, s)"
    using Pos i by (simp add: erase_def bindM_getsM bindM_via_points)
  have "call_result (bindM (mx_find ?old) ?rest (k, s)) k (1 + 8) ?Q ?Ex"
  proof (rule call_result_bind_step [where r = "if ?old \<in> set ?m0 then Some ?old else None" and ?s1.0 = s and s_thr = s])
    show "step_result (mx_find ?old (k, s)) k 1 (if ?old \<in> set ?m0 then Some ?old else None) s s"
      using sm by (rule mx_find_result)
    show "?Ex s" using wf by simp
    fix k'
    let ?it2 = "if ?old \<in> set ?m0 then Some ?old else None"
    have tr: "call_result (erase_try (Pos i) ?it2 (k', s)) k' 8 ?Qt ?Et"
      by (rule erase_try_result [OF refl st0 i d refl refl])
    have handler: "\<exists>s''. erase_catch (0, s') = Return () (0, s'') \<and> ?Ex s''" if "?Et s'" for s'
    proof -
      from that obtain T I where st: "staged ?m0 ?W T I s'" and ps: "points s' = ?ps" by blast
      have "erase_catch (0, s') = Return () (0, cleared (s'\<lparr>maxima := ?m0\<rparr>))"
        using st by (rule erase_catch_result)
      moreover have "s'\<lparr>maxima := ?m0\<rparr> = s'\<lparr>points := ?ps, maxima := ?m0\<rparr>" using ps by simp
      moreover have "consistent (cleared (s'\<lparr>points := ?ps, maxima := ?m0\<rparr>))"
        using st wf by (rule consistent_rolled_back)
      ultimately show ?thesis by simp
    qed
    have "call_result (try_catch_rethrow (erase_try (Pos i) ?it2) erase_catch (k', s)) k' 8 ?Qt ?Ex"
      using tr handler by (rule call_result_try)
    then have "call_result (?rest ?it2 (k', s)) k' (8 + 0) ?Q ?Ex"
    proof (rule call_result_bind)
      fix k'' s' assume q: "?Qt s'"
      then have ps: "points s' = ?ps" by simp
      from q have "\<exists>T I. staged ?m0 ?W T I s' \<and> ?ps ! i \<in> T \<and> (0 < i \<longrightarrow> ?ps ! (i - 1) \<in> T) \<and>
               (Suc i < length ?ps \<longrightarrow> ?ps ! Suc i \<in> T)"
        by (rule conjunct2)
      then obtain T I where TI: "staged ?m0 ?W T I s' \<and> ?ps ! i \<in> T \<and> (0 < i \<longrightarrow> ?ps ! (i - 1) \<in> T) \<and>
               (Suc i < length ?ps \<longrightarrow> ?ps ! Suc i \<in> T)"
        by (elim exE)
      then have st: "staged ?m0 ?W T I s'"
        and T: "?ps ! i \<in> T" "0 < i \<Longrightarrow> ?ps ! (i - 1) \<in> T" "Suc i < length ?ps \<Longrightarrow> ?ps ! Suc i \<in> T"
        by simp_all
      have rest: "p \<in> set ?m0 \<longleftrightarrow> p \<in> ?W" if "p \<notin> T" for p
        unfolding m0 using that T i by (intro local_maxima_without) auto
      have "consistent (cleared (s'\<lparr>maxima := filter (\<lambda>q. q \<notin> staged_del s') (maxima s'), points := ?E\<rparr>))"
        by (rule consistent_committed [OF st rest sE refl])
      then have qq: "?Q (cleared (s'\<lparr>maxima := filter (\<lambda>q. q \<notin> staged_del s') (maxima s'), points := ?E\<rparr>))"
        using er by simp
      have c: "?commit (k'', s') = Return () (k'', cleared (s'\<lparr>maxima := filter (\<lambda>q. q \<notin> staged_del s') (maxima s'),
                                     points := ?E\<rparr>))"
        using erase_commit_apply [OF st, of i k''] i ps by simp
      show "call_result (?commit (k'', s')) k'' 0 ?Q ?Ex"
        unfolding c using qq by (rule call_result_return)
    qed
    then show "call_result (?rest ?it2 (k', s)) k' 8 ?Q ?Ex"
      by simp
  qed
  then show ?thesis unfolding eq by simp
qed

lemma call_result_Return:
  "call_result out k c Q E \<Longrightarrow> out = Return u (k', s') \<Longrightarrow> Q s' \<and> k' \<le> k"
  unfolding call_result_def by auto

lemma call_result_Throw:
  "call_result out k c Q E \<Longrightarrow> out = Throw e (k', s') \<Longrightarrow> e = ComparisonFailure \<and> E s' \<and> k < c"
  unfolding call_result_def by auto

lemma perform_result:
  assumes "consistent s"
  shows "call_result (perform c (k, s)) k 15
     (\<lambda>s'. consistent s' \<and>
        points s' = (case c of Set_value a v \<Rightarrow> assigned a v (points s) | Erase a \<Rightarrow> erased a (points s)))
     (\<lambda>s'. consistent s' \<and> points s' = points s \<and> maxima s' = maxima s)"
proof (cases c)
  case (Set_value a v)
  show ?thesis unfolding Set_value perform.simps set_value_def
    by (rule call_result_weaken [OF custom_insert_result [OF assms]]) simp_all
next
  case (Erase a)
  show ?thesis unfolding Erase perform.simps
    by (rule call_result_weaken [OF erase_result [OF assms]]) simp_all
qed

lemma consistent_init: "consistent FunctionMaxima_init"
  by (simp add: consistent_def FunctionMaxima_init_def buffers_ok_def slots_ok_def local_maxima_def)

lemma run_consistent: "consistent s \<Longrightarrow> run cs s = Some s' \<Longrightarrow> consistent s'"
proof (induction cs arbitrary: s)
  case Nil
  then show ?case by simp
next
  case (Cons ck cs)
  obtain c k where ck: "ck = (c, k)" by (cases ck)
  note r = perform_result [OF Cons.prems(1), of c k]
  show ?case
  proof (cases "perform c (k, s)")
    case (Return u st)
    obtain k1 s1 where st: "st = (k1, s1)" by (cases st)
    from call_result_Return [OF r Return [unfolded st]] have "consistent s1" by simp
    moreover from Cons.prems(2) Return st ck have "run cs s1 = Some s'" by simp
    ultimately show ?thesis by (rule Cons.IH)
  next
    case (Throw e st)
    obtain k1 s1 where st: "st = (k1, s1)" by (cases st)
    from call_result_Throw [OF r Throw [unfolded st]] have "consistent s1" by simp
    moreover from Cons.prems(2) Throw st ck have "run cs s1 = Some s'" by simp
    ultimately show ?thesis by (rule Cons.IH)
  next
    case Undefined
    with Cons.prems(2) ck show ?thesis by simp
  qed
qed

lemma reachable_consistent: "run cs FunctionMaxima_init = Some s \<Longrightarrow> consistent s"
  using consistent_init by (rule run_consistent)

text \<open>Every call of a run has defined behaviour, so every run ends in a state.\<close>

lemma run_defined: "consistent s \<Longrightarrow> \<exists>s'. run cs s = Some s'"
proof (induction cs arbitrary: s)
  case Nil
  then show ?case by simp
next
  case (Cons ck cs)
  obtain c k where ck: "ck = (c, k)" by (cases ck)
  from perform_result [OF Cons.prems, of c k] consider
    (ret) k1 s1 where "perform c (k, s) = Return () (k1, s1)" "consistent s1"
    | (thr) s1 where "perform c (k, s) = Throw ComparisonFailure (0, s1)" "consistent s1"
    unfolding call_result_def by blast
  then show ?case
  proof cases
    case ret
    from Cons.IH [OF ret(2)] ret(1) ck show ?thesis by simp
  next
    case thr
    from Cons.IH [OF thr(2)] thr(1) ck show ?thesis by simp
  qed
qed

lemma reachable: "\<exists>s. run cs FunctionMaxima_init = Some s \<and> consistent s"
proof -
  from run_defined [OF consistent_init] obtain s where "run cs FunctionMaxima_init = Some s"
    by blast
  with reachable_consistent show ?thesis by blast
qed

lemma sorted_points_distinct_args:
  "sorted_wrt compare_points ps \<Longrightarrow> distinct (map arg ps)"
  by (induction ps) (auto simp: compare_points_def)

lemma function_of_None: "function_of ps a = None \<longleftrightarrow> a \<notin> arg ` set ps"
  by (simp add: function_of_def map_of_eq_None_iff image_image)

lemma function_of_Some:
  assumes "sorted_wrt compare_points ps"
  shows "function_of ps a = Some w \<longleftrightarrow> Point a w \<in> set ps"
proof -
  have "distinct (map fst (map (\<lambda>p. (arg p, val p)) ps))"
    using sorted_points_distinct_args [OF assms] by (simp add: comp_def)
  then have "function_of ps a = Some w \<longleftrightarrow> (a, w) \<in> set (map (\<lambda>p. (arg p, val p)) ps)"
    unfolding function_of_def by (rule map_of_eq_Some_iff)
  also have "\<dots> \<longleftrightarrow> Point a w \<in> set ps"
  proof
    assume "(a, w) \<in> set (map (\<lambda>p. (arg p, val p)) ps)"
    then obtain p where p: "p \<in> set ps" "arg p = a" "val p = w" by auto
    have "p = Point a w" by (rule point_type.expand) (simp add: p)
    with p show "Point a w \<in> set ps" by simp
  next
    assume "Point a w \<in> set ps"
    then have "(\<lambda>p. (arg p, val p)) (Point a w) \<in> (\<lambda>p. (arg p, val p)) ` set ps"
      by (rule imageI)
    then show "(a, w) \<in> set (map (\<lambda>p. (arg p, val p)) ps)" by simp
  qed
  finally show ?thesis .
qed

lemma value_at_apply:
  assumes "sorted_wrt compare_points (points s)"
  shows "value_at a (k, s) =
     (case function_of (points s) a of None \<Rightarrow> Throw InvalidArg (k, s) | Some w \<Rightarrow> Return w (k, s))"
proof (cases "points_find (points s) a")
  case End
  with assms have "function_of (points s) a = None"
    by (simp add: function_of_None points_find_End)
  with End show ?thesis by (simp add: value_at_def bindM_getsM)
next
  case (Pos i)
  from points_find_Pos [OF Pos] have i: "i < length (points s)" and a: "arg (points s ! i) = a" by blast+
  then have "Point a (val (points s ! i)) \<in> set (points s)"
    using nth_mem [OF i] by (cases "points s ! i") simp
  with assms have "function_of (points s) a = Some (val (points s ! i))"
    by (simp add: function_of_Some)
  with Pos i show ?thesis by (simp add: value_at_def bindM_getsM bindM_via_points)
qed

lemma assigned_member:
  assumes "sorted_wrt compare_points ps"
  shows "Point a v \<in> set (assigned a v ps)"
proof (cases "points_find ps a")
  case End
  with assms have "arg (Point a v) \<notin> arg ` set ps" by (simp add: points_find_End)
  from points_insert_absent [OF assms this] End show ?thesis
    by (auto simp: assigned_def)
next
  case (Pos i)
  from points_find_Pos [OF Pos] have i: "i < length ps" and a: "arg (ps ! i) = a" by blast+
  show ?thesis
  proof (cases "v = val (ps ! i)")
    case True
    with a have "ps ! i = Point a v" by (cases "ps ! i") simp
    with i have "Point a v \<in> set ps" using nth_mem by metis
    with Pos True show ?thesis by (simp add: assigned_def)
  next
    case False
    with Pos i show ?thesis by (simp add: assigned_def set_update_memI)
  qed
qed

lemma assigned_length:
  assumes "sorted_wrt compare_points ps"
  shows "length (assigned a v ps) = (if a \<in> arg ` set ps then length ps else Suc (length ps))"
proof (cases "points_find ps a")
  case End
  with assms have n: "a \<notin> arg ` set ps" by (simp add: points_find_End)
  then have "arg (Point a v) \<notin> arg ` set ps" by simp
  from points_insert_absent [OF assms this] End n show ?thesis
    by (auto simp: assigned_def)
next
  case (Pos i)
  with assms have "a \<in> arg ` set ps" using points_find_End [OF assms, of a] by simp
  with Pos show ?thesis by (simp add: assigned_def)
qed

lemma erased_length:
  assumes "sorted_wrt compare_points ps"
  shows "length ps = (if a \<in> arg ` set ps then Suc (length (erased a ps)) else length (erased a ps))"
proof (cases "points_find ps a")
  case End
  then have "erased a ps = ps" by (simp add: erased_def)
  moreover from End assms have "a \<notin> arg ` set ps" by (simp add: points_find_End)
  ultimately show ?thesis by simp
next
  case (Pos i)
  with assms have "a \<in> arg ` set ps" using points_find_End [OF assms, of a] by simp
  moreover from points_find_Pos [OF Pos] have "i < length ps" by simp
  ultimately show ?thesis using Pos by (simp add: erased_def)
qed

lemma erased_filter:
  assumes "sorted_wrt compare_points ps"
  shows "erased a ps = filter (\<lambda>p. arg p \<noteq> a) ps"
proof (cases "points_find ps a")
  case End
  with assms have "a \<notin> arg ` set ps" by (simp add: points_find_End)
  then have "filter (\<lambda>p. arg p \<noteq> a) ps = ps" by (auto simp: filter_id_conv)
  with End show ?thesis by (simp add: erased_def)
next
  case (Pos i)
  from points_find_Pos [OF Pos] have i: "i < length ps" and a: "arg (ps ! i) = a" by blast+
  have ps: "ps = take i ps @ ps ! i # drop (Suc i) ps" using i by (rule id_take_nth_drop)
  from sorted_points_distinct_args [OF assms] have "distinct (map arg (take i ps @ ps ! i # drop (Suc i) ps))"
    using ps by simp
  then have "a \<notin> arg ` set (take i ps)" "a \<notin> arg ` set (drop (Suc i) ps)"
    using a by auto
  then have "filter (\<lambda>p. arg p \<noteq> a) (take i ps) = take i ps"
    "filter (\<lambda>p. arg p \<noteq> a) (drop (Suc i) ps) = drop (Suc i) ps"
    by (auto simp: filter_id_conv)
  then have "filter (\<lambda>p. arg p \<noteq> a) (take i ps @ ps ! i # drop (Suc i) ps) = take i ps @ drop (Suc i) ps"
    using a by simp
  with ps Pos show ?thesis by (simp add: erased_def)
qed

lemma greatest_point_is_local_maximum:
  fixes ps :: "('a, 'v::linorder) point_type list"
  assumes p: "p \<in> set ps" and le: "\<And>q. q \<in> set ps \<Longrightarrow> val q \<le> val p"
  shows "p \<in> set (local_maxima ps)"
proof -
  from p obtain i where i: "i < length ps" "ps ! i = p" by (auto simp: in_set_conv_nth)
  have "\<not> val (ps ! i) < val (ps ! (i - 1))"
    using le [OF nth_mem, of "i - 1"] i by (simp add: not_less)
  moreover have "\<not> val (ps ! i) < val (ps ! Suc i)" if "Suc i < length ps"
    using le [OF nth_mem, of "Suc i"] that i by (simp add: not_less)
  ultimately have "local_maximum ps i"
    unfolding local_maximum_iff by (auto simp: not_le)
  with i show ?thesis unfolding set_local_maxima by blast
qed

lemma greatest_is_local_maximum:
  fixes ps :: "('a, 'v::linorder) point_type list"
  assumes "ps \<noteq> []"
  shows "\<exists>p\<in>set (local_maxima ps). \<forall>q\<in>set ps. val q \<le> val p"
proof -
  let ?V = "val ` set ps"
  from assms have "Max ?V \<in> ?V" by (intro Max_in) simp_all
  then obtain p where p: "p \<in> set ps" "val p = Max ?V" by auto
  have le: "val q \<le> val p" if "q \<in> set ps" for q
    using that p by simp
  from p(1) le have "p \<in> set (local_maxima ps)" by (rule greatest_point_is_local_maximum)
  with le show ?thesis by blast
qed

lemma hd_maxima_greatest:
  assumes "sorted_wrt compare_maxima m" "p \<in> set m"
  shows "val p \<le> val (hd m)"
proof (cases m)
  case Nil
  with assms show ?thesis by simp
next
  case (Cons x xs)
  show ?thesis
  proof (cases "p = x")
    case True
    with Cons show ?thesis by simp
  next
    case False
    with assms Cons have "compare_maxima x p" by auto
    then have "val p \<le> val x" by (auto simp: compare_maxima_def split: if_splits)
    with Cons show ?thesis by simp
  qed
qed

lemma compare_maxima_iff:
  "compare_maxima p q \<longleftrightarrow> val q < val p \<or> (val p = val q \<and> arg p < arg q)"
  by (auto simp: compare_maxima_def)

section \<open>The comparisons a call makes\<close>

lemma uniformI:
  assumes "\<And>k s r k' s'. m (k, s) = Return r (k', s') \<Longrightarrow>
             k' \<le> k \<and> (\<forall>j. m (k - k' + j, s) = Return r (j, s'))"
  shows "uniform m"
  unfolding uniform_def using assms by blast

lemma uniformD:
  assumes "uniform m" "m (k, s) = Return r (k', s')"
  shows "k' \<le> k" "m (k - k' + j, s) = Return r (j, s')"
  using assms unfolding uniform_def by blast+

text \<open>A step that compares nothing.\<close>

lemma uniform_free:
  assumes "\<And>k s r k' s'. m (k, s) = Return r (k', s') \<Longrightarrow> k' = k \<and> (\<forall>j. m (j, s) = Return r (j, s'))"
  shows "uniform m"
proof (rule uniformI)
  fix k s r k' s' assume "m (k, s) = Return r (k', s')"
  from assms [OF this] show "k' \<le> k \<and> (\<forall>j. m (k - k' + j, s) = Return r (j, s'))" by simp
qed

text \<open>A step that makes one comparison.\<close>

lemma uniform_one:
  assumes "\<And>k s. m (k, s) = (if k = 0 then Throw ComparisonFailure (0, s) else Return (f s) (k - 1, g s))"
  shows "uniform m"
proof (rule uniformI)
  fix k s r k' s' assume "m (k, s) = Return r (k', s')"
  then have "k \<noteq> 0 \<and> r = f s \<and> k' = k - 1 \<and> s' = g s"
    unfolding assms by (simp split: if_splits)
  then show "k' \<le> k \<and> (\<forall>j. m (k - k' + j, s) = Return r (j, s'))"
    unfolding assms by simp
qed

lemma uniform_returnM: "uniform (returnM x)"
  by (rule uniform_free) simp

lemma uniform_getsM: "uniform (getsM f)"
  by (rule uniform_free) simp

lemma uniform_modifyM: "uniform (modifyM f)"
  by (rule uniform_free) simp

lemma uniform_via_points: "uniform (via_points f)"
  by (rule uniform_free) (simp split: option.splits)

lemma uniform_insert_point: "uniform (insert_point p)"
  by (rule uniform_free) (simp add: insert_point_def split_beta)

lemma uniform_erase_point: "uniform (erase_point it)"
  by (rule uniform_free) (simp add: erase_point_def split: option.splits)

lemma uniform_less_V: "uniform (less_V x y)"
  by (rule uniform_one) (rule less_V_apply)

lemma uniform_mx_find: "uniform (mx_find p)"
  by (rule uniform_one) (rule mx_find_apply)

lemma uniform_mx_insert: "uniform (mx_insert p)"
  by (rule uniform_one) (rule mx_insert_apply)

lemma uniform_if: "uniform m \<Longrightarrow> uniform m' \<Longrightarrow> uniform (if b then m else m')"
  by simp

lemma uniform_bindM:
  assumes m: "uniform m" and f: "\<And>x. uniform (f x)"
  shows "uniform (bindM m f)"
proof (rule uniformI)
  fix k s r k' s' assume b: "bindM m f (k, s) = Return r (k', s')"
  then obtain x st where x: "m (k, s) = Return x st"
    by (cases "m (k, s)") (simp_all add: bindM_def)
  obtain k1 s1 where st: "st = (k1, s1)" by (cases st)
  from b x st have fx: "f x (k1, s1) = Return r (k', s')" by (simp add: bindM_def)
  note um = uniformD [OF m x [unfolded st]] and uf = uniformD [OF f fx]
  have "bindM m f (k - k' + j, s) = Return r (j, s')" for j
  proof -
    from um(1) uf(1) have e: "k - k' + j = k - k1 + (k1 - k' + j)" by simp
    have "m (k - k' + j, s) = Return x (k1 - k' + j, s1)" unfolding e by (rule um(2))
    then have "bindM m f (k - k' + j, s) = f x (k1 - k' + j, s1)" by (rule bindM_Return)
    with uf(2) show ?thesis by simp
  qed
  with um(1) uf(1) show "k' \<le> k \<and> (\<forall>j. bindM m f (k - k' + j, s) = Return r (j, s'))" by simp
qed

lemma uniform_try_catch_rethrow:
  assumes "uniform body"
  shows "uniform (try_catch_rethrow body handler)"
proof (rule uniformI)
  fix k s r k' s' assume t: "try_catch_rethrow body handler (k, s) = Return r (k', s')"
  have b: "body (k, s) = Return r (k', s')"
  proof (cases "body (k, s)")
    case (Return x st)
    with t show ?thesis by (simp add: try_catch_rethrow_def)
  next
    case (Throw e st)
    with t show ?thesis by (cases "handler st") (simp_all add: try_catch_rethrow_def)
  next
    case Undefined
    with t show ?thesis by (simp add: try_catch_rethrow_def)
  qed
  from uniformD [OF assms b]
  show "k' \<le> k \<and> (\<forall>j. try_catch_rethrow body handler (k - k' + j, s) = Return r (j, s'))"
    by (simp add: try_catch_rethrow_def)
qed

lemma uniform_rollback_loop: "uniform (rollback_loop is)"
proof (induction "is")
  case Nil
  show ?case by (simp only: rollback_loop.simps uniform_returnM)
next
  case (Cons i "is")
  have "uniform (\<lambda>(k, s). if if_rollback s ! i then mx_erase (to_rollback s ! i) (k, s) else Return () (k, s))"
    by (rule uniform_free) (auto simp: mx_erase_def split: option.splits if_splits)
  then show ?case unfolding rollback_loop.simps using Cons by (rule uniform_bindM)
qed

lemma uniform_erase_loop: "uniform (erase_loop is)"
proof (induction "is")
  case Nil
  show ?case by (simp only: erase_loop.simps uniform_returnM)
next
  case (Cons i "is")
  have "uniform (\<lambda>(k, s). if if_erase s ! i then mx_erase (to_erase s ! i) (k, s) else Return () (k, s))"
    by (rule uniform_free) (auto simp: mx_erase_def split: option.splits if_splits)
  then show ?case unfolding erase_loop.simps using Cons by (rule uniform_bindM)
qed

lemmas uniform_steps =
  uniform_bindM uniform_if uniform_try_catch_rethrow uniform_returnM uniform_getsM uniform_modifyM
  uniform_via_points uniform_insert_point uniform_erase_point uniform_less_V uniform_mx_find
  uniform_mx_insert uniform_rollback_loop uniform_erase_loop

lemma uniform_conditional_add_new_maximum: "uniform (conditional_add_new_maximum it i previous)"
  unfolding conditional_add_new_maximum_def is_maximum_def greater_than_prev_def greater_than_next_def
    present_in_maxima_set_def
  by (intro uniform_steps)

lemma uniform_clear: "uniform clear_rollback" "uniform clear_erase"
  "uniform rollback_maxima" "uniform erase_from_maxima"
  unfolding clear_rollback_def clear_erase_def rollback_maxima_def erase_from_maxima_def
  by (intro uniform_steps)+

lemma uniform_custom_insert: "uniform (custom_insert a v)"
  unfolding custom_insert_def custom_insert_try_def equivalent_def Let_def
  by (intro uniform_steps uniform_clear uniform_conditional_add_new_maximum)

lemma uniform_erase: "uniform (erase a)"
  unfolding erase_def erase_try_def
  by (intro uniform_steps uniform_clear uniform_conditional_add_new_maximum)

lemma uniform_perform: "uniform (perform c)"
  by (cases c) (simp_all add: set_value_def uniform_custom_insert uniform_erase)

text \<open>
  Hence a call on a consistent object makes a number \<open>n\<close> of comparisons that depends on
  the object only: with a budget of at least \<open>n\<close> it returns, and with a smaller budget
  the comparison that exhausts it throws and the call throws.
\<close>

lemma call_result_exact:
  assumes u: "uniform m" and r: "\<And>k. call_result (m (k, s)) k c Q E"
  shows "\<exists>n s'. n \<le> c \<and> Q s' \<and>
     (\<forall>k. (n \<le> k \<longrightarrow> m (k, s) = Return () (k - n, s')) \<and>
          (k < n \<longrightarrow> (\<exists>s''. m (k, s) = Throw ComparisonFailure (0, s'') \<and> E s'')))"
proof -
  from r [of c] obtain k0 s' where ret: "m (c, s) = Return () (k0, s')" and k0: "k0 \<le> c" and Q: "Q s'"
    unfolding call_result_def by auto
  define n where "n = c - k0"
  from uniformD(2) [OF u ret] have all: "m (n + j, s) = Return () (j, s')" for j
    by (simp add: n_def)
  have high: "m (k, s) = Return () (k - n, s')" if "n \<le> k" for k
    using all [of "k - n"] that by simp
  have low: "\<exists>s''. m (k, s) = Throw ComparisonFailure (0, s'') \<and> E s''" if "k < n" for k
  proof -
    from r [of k] consider
      (ret) k1 s1 where "m (k, s) = Return () (k1, s1)" "k1 \<le> k"
      | (thr) s'' where "m (k, s) = Throw ComparisonFailure (0, s'')" "E s''"
      unfolding call_result_def by blast
    then show ?thesis
    proof cases
      case ret
      from ret(2) that have "k - k1 + (n - (k - k1)) = n" by simp
      with uniformD(2) [OF u ret(1), of "n - (k - k1)"]
      have "m (n, s) = Return () (n - (k - k1), s1)" by simp
      moreover from all [of 0] have "m (n, s) = Return () (0, s')" by simp
      ultimately have "n - (k - k1) = 0" by simp
      with that ret(2) show ?thesis by simp
    next
      case thr
      then show ?thesis by blast
    qed
  qed
  have "n \<le> c" by (simp add: n_def)
  with Q high low show ?thesis by blast
qed

lemma perform_exact:
  assumes "consistent s"
  shows "\<exists>n s'. n \<le> 15 \<and> consistent s' \<and>
     points s' = (case c of Set_value a v \<Rightarrow> assigned a v (points s) | Erase a \<Rightarrow> erased a (points s)) \<and>
     (\<forall>k. (n \<le> k \<longrightarrow> perform c (k, s) = Return () (k - n, s')) \<and>
          (k < n \<longrightarrow> (\<exists>s''. perform c (k, s) = Throw ComparisonFailure (0, s'') \<and>
                          consistent s'' \<and> points s'' = points s \<and> maxima s'' = maxima s)))"
  using call_result_exact [OF uniform_perform perform_result [OF assms], of c] by simp

lemma erase_exact:
  assumes "consistent s"
  shows "\<exists>n s'. n \<le> 9 \<and> consistent s' \<and> points s' = erased a (points s) \<and>
     (\<forall>k. (n \<le> k \<longrightarrow> erase a (k, s) = Return () (k - n, s')) \<and>
          (k < n \<longrightarrow> (\<exists>s''. erase a (k, s) = Throw ComparisonFailure (0, s'') \<and>
                          consistent s'' \<and> points s'' = points s \<and> maxima s'' = maxima s)))"
  using call_result_exact [OF uniform_erase erase_result [OF assms], of a] by simp

lemma set_value_exact:
  assumes "consistent s"
  shows "\<exists>n s'. n \<le> 15 \<and> consistent s' \<and> points s' = assigned a v (points s) \<and>
     (\<forall>k. (n \<le> k \<longrightarrow> set_value a v (k, s) = Return () (k - n, s')) \<and>
          (k < n \<longrightarrow> (\<exists>s''. set_value a v (k, s) = Throw ComparisonFailure (0, s'') \<and>
                          consistent s'' \<and> points s'' = points s \<and> maxima s'' = maxima s)))"
  unfolding set_value_def
  using call_result_exact [OF uniform_custom_insert custom_insert_result [OF assms], of a v] by simp

section \<open>Evaluation on concrete inputs\<close>

lemma slots_erase: "[0..<NUMBER_TO_ERASE] = [0, 1, 2, 3, 4]"
  by (simp add: NUMBER_TO_ERASE_def upt_conv_Cons)

lemma slots_rollback: "[0..<NUMBER_TO_ROLLBACK] = [0, 1, 2, 3]"
  by (simp add: NUMBER_TO_ROLLBACK_def upt_conv_Cons)

lemma FunctionMaxima_init_eq:
  "FunctionMaxima_init =
     \<lparr>points = [], maxima = [],
      to_erase = [None, None, None, None, None],
      to_rollback = [None, None, None, None],
      if_erase = [False, False, False, False, False],
      if_rollback = [False, False, False, False]\<rparr>"
  by (simp add: FunctionMaxima_init_def NUMBER_TO_ERASE_def NUMBER_TO_ROLLBACK_def numeral_eq_Suc)

lemma bindM_apply: "bindM m f st = (case m st of Return x st' \<Rightarrow> f x st' | Throw e st' \<Rightarrow> Throw e st' | Undefined \<Rightarrow> Undefined)"
  by (simp add: bindM_def)

lemma try_catch_rethrow_apply: "try_catch_rethrow body handler st = (case body st of
       Return x s' \<Rightarrow> Return x s'
     | Throw e s' \<Rightarrow> (case handler s' of
           Return u s'' \<Rightarrow> Throw e s''
         | Throw e' s'' \<Rightarrow> Throw e' s''
         | Undefined \<Rightarrow> Undefined)
     | Undefined \<Rightarrow> Undefined)"
  by (simp add: try_catch_rethrow_def)

lemmas eval_simps = slots_erase slots_rollback bindM_apply try_catch_rethrow_apply set_value_def custom_insert_def custom_insert_try_def custom_insert_catch_def
  erase_def erase_try_def erase_catch_def
  FunctionMaxima_init_eq points_find_def points_insert_def
  compare_points_def compare_maxima_def equivalent_def less_V_apply mx_find_apply mx_insert_apply
  mx_erase_def insert_point_def erase_point_def clear_erase_def clear_rollback_def rollback_maxima_def
  erase_from_maxima_def multi_prev_def multi_next_def multi_is_beginning_def multi_is_ending_def
  greater_than_next_def greater_than_prev_def is_maximum_def present_in_maxima_set_def
  conditional_add_new_maximum_def it_begin_def returned_def value_at_def size_fm_def

lemma run_append: "run (cs @ ds) s = (case run cs s of None \<Rightarrow> None | Some s' \<Rightarrow> run ds s')"
proof (induction cs arbitrary: s)
  case Nil
  show ?case by simp
next
  case (Cons ck cs)
  obtain c k where ck: "ck = (c, k)" by (cases ck)
  show ?case
  proof (cases "perform c (k, s)")
    case (Return u st)
    then show ?thesis using Cons ck by (cases st) simp
  next
    case (Throw e st)
    then show ?thesis using Cons ck by (cases st) simp
  next
    case Undefined
    then show ?thesis using ck by simp
  qed
qed

lemma run_A: "run calls_A FunctionMaxima_init = Some state_A"
  by (simp add: calls_A_def state_A_def eval_simps)

lemma run_ABC: "run calls_ABC FunctionMaxima_init = Some state_C"
  by (simp add: calls_ABC_def state_C_def eval_simps)

lemma erase_2_no_budget: "erase 2 (0, state_C) = Throw ComparisonFailure (0, state_C)"
  by (simp add: state_C_def eval_simps)

lemma set_value_4_5_state_C: "set_value 4 5 (20, state_C) = Return () (15, state_C4)"
  by (simp add: state_C_def state_C4_def eval_simps)

text \<open>Calls on the least argument.\<close>

lemma erase_1_state_A: "erase 1 (20, state_A) = Return () (19, state_A_erased)"
  by (simp add: state_A_def state_A_erased_def eval_simps)

lemma erase_1_state_C: "erase 1 (20, state_C) = Return () (17, state_C_erased_1)"
  by (simp add: state_C_def state_C_erased_1_def eval_simps)

lemma erase_1_state_C_throws:
  "erase 1 (2, state_C) = Throw ComparisonFailure (0, state_C)"
  by (simp add: state_C_def eval_simps)

lemma set_value_1_5_state_C: "set_value 1 5 (9, state_C) = Return () (0, state_C_set_1_5)"
  by (simp add: state_C_def state_C_set_1_5_def eval_simps)

lemma set_value_1_5_state_C_throws:
  "set_value 1 5 (8, state_C) = Throw ComparisonFailure (0, state_C_thrown)"
  by (simp add: state_C_def state_C_thrown_def eval_simps)

lemma erase_1_state_C_thrown: "erase 1 (20, state_C_thrown) = Return () (17, state_C_erased_1\<lparr>
    to_erase := [None, None, Some (Point 2 2), Some (Point 1 1), None],
    to_rollback := [None, Some (Point 1 5), None, None]\<rparr>)"
  by (simp add: state_C_thrown_def state_C_erased_1_def eval_simps)

lemma set_value_2_5_least:
  "set_value 2 5 (20, state_C_erased_1\<lparr>
      to_erase := [None, None, Some (Point 2 2), Some (Point 1 1), None],
      to_rollback := [None, Some (Point 1 5), None, None]\<rparr>) = Return () (12, state_least)"
  by (simp add: state_C_erased_1_def state_least_def eval_simps)

lemma run_least: "run calls_ABC_least FunctionMaxima_init = Some state_least"
  unfolding calls_ABC_least_def
  by (simp add: run_append run_ABC set_value_1_5_state_C_throws erase_1_state_C_thrown set_value_2_5_least)

text \<open>
  What a statement about all budgets says of the outcome with one of them.
\<close>

lemma exact_returned:
  fixes f :: "nat \<Rightarrow> (unit, nat \<times> 's) outcome"
  assumes "\<exists>n\<le>b. \<forall>k.
      (n \<le> k \<longrightarrow> (\<exists>s'. f k = Return () (k - n, s') \<and> P s')) \<and>
      (k < n \<longrightarrow> (\<exists>s'. f k = Throw ComparisonFailure (0, s') \<and> Q s'))"
    and "f k = Return () (k', t)"
  shows "P t"
proof -
  from assms(1) obtain n where
    n: "\<And>k. n \<le> k \<Longrightarrow> \<exists>s'. f k = Return () (k - n, s') \<and> P s'"
    and t: "\<And>k. k < n \<Longrightarrow> \<exists>s'. f k = Throw ComparisonFailure (0, s') \<and> Q s'"
    by blast
  show ?thesis
  proof (cases "n \<le> k")
    case True
    from n [OF True] assms(2) show ?thesis by auto
  next
    case False
    then have "k < n" by simp
    from t [OF this] assms(2) show ?thesis by auto
  qed
qed

lemma exact_thrown:
  fixes f :: "nat \<Rightarrow> (unit, nat \<times> 's) outcome"
  assumes "\<exists>n\<le>b. \<forall>k.
      (n \<le> k \<longrightarrow> (\<exists>s'. f k = Return () (k - n, s') \<and> P s')) \<and>
      (k < n \<longrightarrow> (\<exists>s'. f k = Throw ComparisonFailure (0, s') \<and> Q s'))"
    and "f k = Throw e (k', t)"
  shows "Q t"
proof -
  from assms(1) obtain n where
    n: "\<And>k. n \<le> k \<Longrightarrow> \<exists>s'. f k = Return () (k - n, s') \<and> P s'"
    and t: "\<And>k. k < n \<Longrightarrow> \<exists>s'. f k = Throw ComparisonFailure (0, s') \<and> Q s'"
    by blast
  show ?thesis
  proof (cases "n \<le> k")
    case True
    from n [OF True] assms(2) show ?thesis by auto
  next
    case False
    then have "k < n" by simp
    from t [OF this] assms(2) show ?thesis by auto
  qed
qed

section \<open>The claims of the specification\<close>

text \<open>
  C1. Every sequence of calls to \<open>set_value\<close> and \<open>erase\<close> on the empty structure, each
  with a comparison that throws or not, leads to a state, and in that state the maxima are
  exactly the stored points that are not less than their left neighbour, where they have
  one, and not less than their right neighbour, where they have one.
\<close>

theorem maxima_view_is_local_maxima:
  "\<exists>s. run cs FunctionMaxima_init = Some s \<and> set (maxima s) = set (local_maxima (points s))"
  using reachable [of cs] by (auto simp: consistent_def)

theorem maxima_view_is_local_maxima_witness:
  "run calls_ABC_least FunctionMaxima_init = Some state_least \<and>
   set (maxima state_least) = set (local_maxima (points state_least))"
  using maxima_view_is_local_maxima [of calls_ABC_least] run_least by simp

text \<open>
  C2. A call to \<open>set_value\<close> or \<open>erase\<close> on a structure reached by such calls makes a
  number \<open>n\<close>, at most fifteen, of steps that compare values of \<open>V\<close> (a comparison by
  the class itself, or a \<open>find\<close> or \<open>insert\<close> on the set of maxima); \<open>n\<close> depends on the
  structure and the call only. If the comparison throws at none of these steps, the call
  returns. If it throws at one of them, which is the case when the budget \<open>k\<close> is less
  than \<open>n\<close>, the call throws the exception of the comparison, and the sequence of points
  and the sequence of maxima are what they were before the call.
\<close>

theorem comparison_failure_leaves_state:
  "\<exists>s. run cs FunctionMaxima_init = Some s \<and>
     (\<exists>n\<le>15. \<forall>k.
        (n \<le> k \<longrightarrow> (\<exists>s'. perform c (k, s) = Return () (k - n, s'))) \<and>
        (k < n \<longrightarrow> (\<exists>s'. perform c (k, s) = Throw ComparisonFailure (0, s') \<and>
                        points s' = points s \<and> maxima s' = maxima s)))"
proof -
  from reachable [of cs] obtain s where s: "run cs FunctionMaxima_init = Some s" "consistent s"
    by blast
  from perform_exact [OF s(2), of c] obtain n where "n \<le> 15"
    and "\<forall>k. (n \<le> k \<longrightarrow> (\<exists>s'. perform c (k, s) = Return () (k - n, s'))) \<and>
        (k < n \<longrightarrow> (\<exists>s'. perform c (k, s) = Throw ComparisonFailure (0, s') \<and>
                        points s' = points s \<and> maxima s' = maxima s))"
    by blast
  with s(1) show ?thesis by blast
qed

theorem comparison_failure_leaves_state_witness:
  "run calls_ABC FunctionMaxima_init = Some state_C \<and>
   perform (Set_value 1 5) (9, state_C) = Return () (0, state_C_set_1_5) \<and>
   perform (Set_value 1 5) (8, state_C) = Throw ComparisonFailure (0, state_C_thrown) \<and>
   points state_C_thrown = points state_C \<and> maxima state_C_thrown = maxima state_C"
proof -
  from comparison_failure_leaves_state [of calls_ABC "Set_value 1 5"] run_ABC
  obtain n where
    n: "\<And>k. n \<le> k \<Longrightarrow> \<exists>s'. perform (Set_value 1 5) (k, state_C) = Return () (k - n, s')"
    and t: "\<And>k. k < n \<Longrightarrow> \<exists>s'. perform (Set_value 1 5) (k, state_C) = Throw ComparisonFailure (0, s') \<and>
                        points s' = points state_C \<and> maxima s' = maxima state_C"
    by auto
  have thr: "perform (Set_value 1 5) (8, state_C) = Throw ComparisonFailure (0, state_C_thrown)"
    using set_value_1_5_state_C_throws by simp
  have ret: "perform (Set_value 1 5) (9, state_C) = Return () (0, state_C_set_1_5)"
    using set_value_1_5_state_C by simp
  have "8 < n"
  proof (rule ccontr)
    assume "\<not> 8 < n"
    then have "n \<le> 8" by simp
    from n [OF this] thr show False by simp
  qed
  from t [OF this] thr have "points state_C_thrown = points state_C \<and> maxima state_C_thrown = maxima state_C"
    by simp
  with run_ABC thr ret show ?thesis by simp
qed

text \<open>
  C3. The claim that \<open>erase\<close> has no failure mode does not hold: in the structure of
  scenario C, \<open>erase(2)\<close> throws when the first comparison it causes on \<open>V\<close> throws.
\<close>

theorem erase_can_throw:
  "run calls_ABC FunctionMaxima_init = Some state_C \<and>
   erase 2 (0, state_C) = Throw ComparisonFailure (0, state_C)"
  using run_ABC erase_2_no_budget by simp

text \<open>
  C3, as amended. On a structure reached by calls to \<open>set_value\<close> and \<open>erase\<close>,
  \<open>erase(a)\<close> for an absent \<open>a\<close> returns and changes nothing. For a present \<open>a\<close> it
  makes a number \<open>n\<close>, at least one and at most nine, of steps that compare values of
  \<open>V\<close>. If the comparison throws at none of them, \<open>erase(a)\<close> returns, the points are the
  former ones without the point at \<open>a\<close>, in the same order, and \<open>value_at(a)\<close> then raises
  \<open>InvalidArg\<close>. If the comparison throws at one of them, \<open>erase(a)\<close> throws that
  exception, and the points and the maxima are what they were.
\<close>

theorem erase_outcomes:
  "\<exists>s. run cs FunctionMaxima_init = Some s \<and>
     (a \<notin> arg ` set (points s) \<longrightarrow> (\<forall>k. erase a (k, s) = Return () (k, s))) \<and>
     (\<exists>n\<le>9. (a \<in> arg ` set (points s) \<longrightarrow> 0 < n) \<and>
        (\<forall>k.
          (n \<le> k \<longrightarrow> (\<exists>s'. erase a (k, s) = Return () (k - n, s') \<and>
                          points s' = filter (\<lambda>p. arg p \<noteq> a) (points s) \<and>
                          value_at a (k - n, s') = Throw InvalidArg (k - n, s'))) \<and>
          (k < n \<longrightarrow> (\<exists>s'. erase a (k, s) = Throw ComparisonFailure (0, s') \<and>
                          points s' = points s \<and> maxima s' = maxima s))))"
proof -
  from reachable [of cs] obtain s where s: "run cs FunctionMaxima_init = Some s" and c: "consistent s"
    by blast
  from c have sp: "sorted_wrt compare_points (points s)" by (simp add: consistent_def)
  have absent: "erase a (k, s) = Return () (k, s)" if "a \<notin> arg ` set (points s)" for k
    using that sp by (intro erase_absent) (simp add: points_find_End)
  from erase_exact [OF c, of a] obtain n s' where n: "n \<le> 9" and c': "consistent s'"
    and p: "points s' = erased a (points s)"
    and ret: "\<And>k. n \<le> k \<Longrightarrow> erase a (k, s) = Return () (k - n, s')"
    and thr: "\<And>k. k < n \<Longrightarrow> \<exists>s''. erase a (k, s) = Throw ComparisonFailure (0, s'') \<and>
                 consistent s'' \<and> points s'' = points s \<and> maxima s'' = maxima s"
    by blast
  from p have f: "points s' = filter (\<lambda>p. arg p \<noteq> a) (points s)"
    using sp by (simp add: erased_filter)
  then have "function_of (points s') a = None" by (auto simp: function_of_None)
  moreover from c' have "sorted_wrt compare_points (points s')" by (simp add: consistent_def)
  ultimately have v: "value_at a (j, s') = Throw InvalidArg (j, s')" for j
    by (simp add: value_at_apply)
  have pos: "0 < n" if "a \<in> arg ` set (points s)"
  proof (rule ccontr)
    assume "\<not> 0 < n"
    then have "erase a (0, s) = Return () (0, s')" using ret [of 0] by simp
    moreover from that sp obtain i where i: "points_find (points s) a = Pos i"
      using points_find_End [OF sp, of a] by (cases "points_find (points s) a") auto
    from points_find_Pos [OF i] have "i < length (points s)" by simp
    with i have "erase a (0, s) = Throw ComparisonFailure (0, s)"
      by (simp add: erase_def bindM_getsM bindM_via_points mx_find_apply)
    ultimately show False by simp
  qed
  have "(a \<in> arg ` set (points s) \<longrightarrow> 0 < n) \<and>
        (\<forall>k.
          (n \<le> k \<longrightarrow> (\<exists>s'. erase a (k, s) = Return () (k - n, s') \<and>
                          points s' = filter (\<lambda>p. arg p \<noteq> a) (points s) \<and>
                          value_at a (k - n, s') = Throw InvalidArg (k - n, s'))) \<and>
          (k < n \<longrightarrow> (\<exists>s'. erase a (k, s) = Throw ComparisonFailure (0, s') \<and>
                          points s' = points s \<and> maxima s' = maxima s)))"
    using pos ret f v thr by blast
  with s absent n show ?thesis by blast
qed

theorem erase_outcomes_witness:
  "run calls_ABC FunctionMaxima_init = Some state_C \<and>
   (7 \<notin> arg ` set (points state_C) \<and> erase 7 (0, state_C) = Return () (0, state_C)) \<and>
   (1 \<in> arg ` set (points state_C) \<and>
      erase 1 (20, state_C) = Return () (17, state_C_erased_1) \<and>
      points state_C_erased_1 = filter (\<lambda>p. arg p \<noteq> 1) (points state_C) \<and>
      value_at 1 (17, state_C_erased_1) = Throw InvalidArg (17, state_C_erased_1) \<and>
      erase 1 (2, state_C) = Throw ComparisonFailure (0, state_C))"
proof -
  have a: "(7::int) \<notin> arg ` set (points state_C)" "(1::int) \<in> arg ` set (points state_C)"
    by (simp_all add: state_C_def)
  from erase_outcomes [of calls_ABC 7] run_ABC a
  have 7: "erase 7 (0, state_C) = Return () (0, state_C)" by auto
  from erase_outcomes [of calls_ABC 1] run_ABC obtain n where
    ret: "\<And>k. n \<le> k \<Longrightarrow> \<exists>s'. erase 1 (k, state_C) = Return () (k - n, s') \<and>
                          points s' = filter (\<lambda>p. arg p \<noteq> 1) (points state_C) \<and>
                          value_at 1 (k - n, s') = Throw InvalidArg (k - n, s')"
    and thr: "\<And>k. k < n \<Longrightarrow> \<exists>s'. erase 1 (k, state_C) = Throw ComparisonFailure (0, s') \<and>
                          points s' = points state_C \<and> maxima s' = maxima state_C"
    by auto
  have "n \<le> 20"
  proof (rule ccontr)
    assume "\<not> n \<le> 20"
    then have "20 < n" by simp
    from thr [OF this] erase_1_state_C show False by simp
  qed
  from ret [OF this] erase_1_state_C
  have "points state_C_erased_1 = filter (\<lambda>p. arg p \<noteq> 1) (points state_C) \<and>
      value_at 1 (17, state_C_erased_1) = Throw InvalidArg (17, state_C_erased_1)"
    by auto
  with run_ABC a 7 erase_1_state_C erase_1_state_C_throws show ?thesis by simp
qed

text \<open>
  C4. On a structure reached by calls to \<open>set_value\<close> and \<open>erase\<close> in which \<open>a\<close> has the
  value \<open>w\<close>, \<open>set_value(a, v)\<close> with \<open>v\<close> equivalent to \<open>w\<close> makes the two comparisons of the
  equivalence test and returns with the object as it was: the same points, maxima and size.
  If one of the two comparisons throws, the exception leaves the call and the object is as
  it was, too.
\<close>

theorem set_value_equivalent_is_noop:
  fixes v w :: "'v::linorder"
  assumes "run cs FunctionMaxima_init = Some s" and "Point a w \<in> set (points s)"
    and "\<not> v < w" and "\<not> w < v"
  shows "set_value a v (k, s) =
           (if 2 \<le> k then Return () (k - 2, s) else Throw ComparisonFailure (0, s))"
proof -
  from assms(1) have "consistent s" by (rule reachable_consistent)
  then have sp: "sorted_wrt compare_points (points s)" by (simp add: consistent_def)
  from assms(2) obtain i where i: "i < length (points s)" "points s ! i = Point a w"
    by (auto simp: in_set_conv_nth)
  with sp have f: "points_find (points s) a = Pos i"
    using points_find_present [of "points s" i] by simp
  from assms(3,4) have vw: "v = w" by simp
  have "k = 0 \<or> k = 1 \<or> 2 \<le> k" by arith
  then show ?thesis
    using f i vw
    by (elim disjE)
       (simp_all add: set_value_def custom_insert_def bindM_getsM bindM_bindM_via_points
          equivalent_def less_V_apply bindM_def)
qed

theorem set_value_equivalent_is_noop_witness:
  "run calls_ABC FunctionMaxima_init = Some state_C \<and> Point 2 2 \<in> set (points state_C) \<and>
   \<not> (2::int) < 2 \<and> set_value 2 2 (20, state_C) = Return () (18, state_C)"
proof -
  have m: "Point 2 2 \<in> set (points state_C)" by (simp add: state_C_def)
  from set_value_equivalent_is_noop [OF run_ABC m, of 2 20] run_ABC m show ?thesis by simp
qed

text \<open>
  C5. On a structure reached by calls to \<open>set_value\<close> and \<open>erase\<close>, \<open>set_value(a, v)\<close>
  makes a number \<open>n\<close>, at most fifteen, of steps that compare values of \<open>V\<close>. If the
  comparison throws at none of them, the call returns, and \<open>value_at(a)\<close> then returns a
  value equivalent to \<open>v\<close>: neither is less than the other. Otherwise the call throws, so
  these are all the calls that return.
\<close>

theorem set_value_round_trip:
  fixes v :: "'v::linorder"
  shows "\<exists>s. run cs FunctionMaxima_init = Some s \<and>
     (\<exists>n\<le>15. \<forall>k.
        (n \<le> k \<longrightarrow> (\<exists>s'. set_value a v (k, s) = Return () (k - n, s') \<and>
             (\<forall>j. \<exists>w. value_at a (j, s') = Return w (j, s') \<and> \<not> w < v \<and> \<not> v < w))) \<and>
        (k < n \<longrightarrow> (\<exists>s'. set_value a v (k, s) = Throw ComparisonFailure (0, s'))))"
proof -
  from reachable [of cs] obtain s where s: "run cs FunctionMaxima_init = Some s" and c: "consistent s"
    by blast
  from c have sp: "sorted_wrt compare_points (points s)" by (simp add: consistent_def)
  from set_value_exact [OF c, of a v] obtain n s' where n: "n \<le> 15" and c': "consistent s'"
    and p: "points s' = assigned a v (points s)"
    and ret: "\<And>k. n \<le> k \<Longrightarrow> set_value a v (k, s) = Return () (k - n, s')"
    and thr: "\<And>k. k < n \<Longrightarrow> \<exists>s''. set_value a v (k, s) = Throw ComparisonFailure (0, s'')"
    by blast
  from c' have sp': "sorted_wrt compare_points (points s')" by (simp add: consistent_def)
  from p assigned_member [OF sp, of a v] have "Point a v \<in> set (points s')" by simp
  with sp' have "function_of (points s') a = Some v" by (simp add: function_of_Some)
  with sp' have "value_at a (j, s') = Return v (j, s')" for j by (simp add: value_at_apply)
  then have "\<forall>j. \<exists>w. value_at a (j, s') = Return w (j, s') \<and> \<not> w < v \<and> \<not> v < w" by simp
  with ret thr have "\<forall>k.
        (n \<le> k \<longrightarrow> (\<exists>s'. set_value a v (k, s) = Return () (k - n, s') \<and>
             (\<forall>j. \<exists>w. value_at a (j, s') = Return w (j, s') \<and> \<not> w < v \<and> \<not> v < w))) \<and>
        (k < n \<longrightarrow> (\<exists>s'. set_value a v (k, s) = Throw ComparisonFailure (0, s')))"
    by blast
  with s n show ?thesis by blast
qed

theorem set_value_round_trip_witness:
  "run calls_ABC FunctionMaxima_init = Some state_C \<and>
   set_value 1 5 (9, state_C) = Return () (0, state_C_set_1_5) \<and>
   (\<exists>w. value_at 1 (0, state_C_set_1_5) = Return w (0, state_C_set_1_5) \<and> \<not> w < 5 \<and> \<not> 5 < w) \<and>
   set_value 1 5 (8, state_C) = Throw ComparisonFailure (0, state_C_thrown)"
proof -
  from set_value_round_trip [of calls_ABC 1 5] run_ABC obtain n where
    ret: "\<And>k. n \<le> k \<Longrightarrow> \<exists>s'. set_value 1 5 (k, state_C) = Return () (k - n, s') \<and>
             (\<forall>j. \<exists>w. value_at 1 (j, s') = Return w (j, s') \<and> \<not> w < 5 \<and> \<not> 5 < w)"
    and thr: "\<And>k. k < n \<Longrightarrow> \<exists>s'. set_value 1 5 (k, state_C) = Throw ComparisonFailure (0, s')"
    by auto
  have "n \<le> 9"
  proof (rule ccontr)
    assume "\<not> n \<le> 9"
    then have "9 < n" by simp
    from thr [OF this] set_value_1_5_state_C show False by simp
  qed
  from ret [OF this] set_value_1_5_state_C
  have "\<exists>w. value_at 1 (0, state_C_set_1_5) = Return w (0, state_C_set_1_5) \<and> \<not> w < 5 \<and> \<not> 5 < w"
    by auto
  with run_ABC set_value_1_5_state_C set_value_1_5_state_C_throws show ?thesis by simp
qed

text \<open>
  C6. In every state that calls to \<open>set_value\<close> and \<open>erase\<close> lead to, the sequence of
  maxima is ordered by descending value, and by ascending argument among equal values, and
  its elements are stored points; if the structure has a point, the first of the maxima is
  a stored point whose value is the greatest of all points.
\<close>

theorem maxima_iteration_order:
  "\<exists>s. run cs FunctionMaxima_init = Some s \<and>
     sorted_wrt (\<lambda>p q. val q < val p \<or> (val p = val q \<and> arg p < arg q)) (maxima s) \<and>
     set (maxima s) \<subseteq> set (points s) \<and>
     (points s \<noteq> [] \<longrightarrow>
        maxima s \<noteq> [] \<and> hd (maxima s) \<in> set (points s) \<and>
        (\<forall>p\<in>set (points s). val p \<le> val (hd (maxima s))))"
proof -
  from reachable [of cs] obtain s where s: "run cs FunctionMaxima_init = Some s" and c: "consistent s"
    by blast
  from c have sm: "sorted_wrt compare_maxima (maxima s)"
    and m: "set (maxima s) = set (local_maxima (points s))" by (simp_all add: consistent_def)
  have 1: "sorted_wrt (\<lambda>p q. val q < val p \<or> (val p = val q \<and> arg p < arg q)) (maxima s)"
    using _ sm by (rule sorted_wrt_mono_rel) (simp add: compare_maxima_iff)
  have 2: "set (maxima s) \<subseteq> set (points s)" unfolding m by (rule local_maxima_subset)
  have 3: "maxima s \<noteq> [] \<and> hd (maxima s) \<in> set (points s) \<and>
      (\<forall>p\<in>set (points s). val p \<le> val (hd (maxima s)))" if "points s \<noteq> []"
  proof -
    from greatest_is_local_maximum [OF that] m obtain g where
      g: "g \<in> set (maxima s)" "\<forall>q\<in>set (points s). val q \<le> val g" by auto
    from g(1) have ne: "maxima s \<noteq> []" by auto
    then have "hd (maxima s) \<in> set (maxima s)" by simp
    with 2 have "hd (maxima s) \<in> set (points s)" by blast
    moreover from hd_maxima_greatest [OF sm g(1)] g(2)
    have "\<forall>p\<in>set (points s). val p \<le> val (hd (maxima s))" by fastforce
    ultimately show ?thesis using ne by simp
  qed
  from s 1 2 3 show ?thesis by blast
qed

theorem maxima_iteration_order_witness:
  "run calls_ABC_least FunctionMaxima_init = Some state_least \<and>
   sorted_wrt (\<lambda>p q. val q < val p \<or> (val p = val q \<and> arg p < arg q)) (maxima state_least) \<and>
   points state_least = [Point 2 5, Point 3 1] \<and> maxima state_least \<noteq> [] \<and>
   hd (maxima state_least) = Point 2 5 \<and>
   val (Point 2 5 :: (int, int) point_type) \<le> val (hd (maxima state_least)) \<and>
   val (Point 3 1 :: (int, int) point_type) \<le> val (hd (maxima state_least))"
proof -
  have p: "points state_least = [Point 2 5, Point 3 1]" "hd (maxima state_least) = Point 2 5"
    by (simp_all add: state_least_def)
  then have "points state_least \<noteq> []" by simp
  with maxima_iteration_order [of calls_ABC_least] run_least p show ?thesis by auto
qed

text \<open>
  C7. Starting from the empty structure, \<open>set_value(1,1)\<close>, \<open>set_value(2,2)\<close>,
  \<open>set_value(3,1)\<close> and \<open>erase(2)\<close> each return (with a budget of twenty comparisons that
  none of them exhausts), and the points and the maxima after each call are those of
  scenarios A to D: after \<open>set_value(2,2)\<close> the only maximum is \<open>(2,2)\<close>, and after
  \<open>erase(2)\<close> the points and the maxima are both \<open>(1,1)\<close>, \<open>(3,1)\<close> in that order.
\<close>

theorem scenario_A_to_D:
  "do { sA \<leftarrow> returned (set_value 1 1 (20, FunctionMaxima_init));
        sB \<leftarrow> returned (set_value 2 2 (20, sA));
        sC \<leftarrow> returned (set_value 3 1 (20, sB));
        sD \<leftarrow> returned (erase 2 (20, sC));
        Some (map (\<lambda>s. (points s, maxima s)) [sA, sB, sC, sD]) }
   = Some [([Point (1::int) (1::int)], [Point 1 1]),
           ([Point 1 1, Point 2 2], [Point 2 2]),
           ([Point 1 1, Point 2 2, Point 3 1], [Point 2 2]),
           ([Point 1 1, Point 3 1], [Point 1 1, Point 3 1])]"
  by (simp add: eval_simps)

text \<open>
  C8. On a structure reached by calls to \<open>set_value\<close> and \<open>erase\<close>, \<open>value_at(a)\<close> raises
  \<open>InvalidArg\<close> if the function has no value at \<open>a\<close> and returns the value otherwise; in both
  cases the object is left as it was.
\<close>

theorem value_at_defined_iff:
  assumes "run cs FunctionMaxima_init = Some s"
  shows "value_at a (k, s) =
     (case function_of (points s) a of None \<Rightarrow> Throw InvalidArg (k, s) | Some w \<Rightarrow> Return w (k, s))"
  using reachable_consistent [OF assms] by (simp add: consistent_def value_at_apply)

theorem value_at_defined_iff_witness:
  "run calls_ABC FunctionMaxima_init = Some state_C \<and>
   value_at 2 (0, state_C) = Return 2 (0, state_C) \<and>
   value_at 5 (0, state_C) = Throw InvalidArg (0, state_C)"
  using value_at_defined_iff [OF run_ABC, of 2 0] value_at_defined_iff [OF run_ABC, of 5 0] run_ABC
  by (simp add: function_of_def state_C_def)

text \<open>
  C9. In every state that calls to \<open>set_value\<close> and \<open>erase\<close> lead to, \<open>size\<close> returns,
  and if the size is positive, the sequence of maxima is not empty: its elements are stored
  points, and every stored point whose value is the greatest of all is one of them.
\<close>

theorem nonempty_has_maximum:
  "\<exists>s n. run cs FunctionMaxima_init = Some s \<and> size_fm (k, s) = Return n (k, s) \<and>
     (0 < n \<longrightarrow>
        maxima s \<noteq> [] \<and> set (maxima s) \<subseteq> set (points s) \<and>
        (\<exists>p\<in>set (maxima s). \<forall>q\<in>set (points s). val q \<le> val p) \<and>
        (\<forall>p\<in>set (points s). (\<forall>q\<in>set (points s). val q \<le> val p) \<longrightarrow> p \<in> set (maxima s)))"
proof -
  from reachable [of cs] obtain s where s: "run cs FunctionMaxima_init = Some s" and c: "consistent s"
    by blast
  from c have m: "set (maxima s) = set (local_maxima (points s))" by (simp add: consistent_def)
  have n: "size_fm (k, s) = Return (length (points s)) (k, s)" by (simp add: size_fm_def)
  have sub: "set (maxima s) \<subseteq> set (points s)" unfolding m by (rule local_maxima_subset)
  have all: "p \<in> set (maxima s)" if "p \<in> set (points s)" "\<forall>q\<in>set (points s). val q \<le> val p" for p
    unfolding m using that by (intro greatest_point_is_local_maximum) auto
  have ex: "maxima s \<noteq> [] \<and> (\<exists>p\<in>set (maxima s). \<forall>q\<in>set (points s). val q \<le> val p)"
    if "0 < length (points s)"
  proof -
    from that have "points s \<noteq> []" by simp
    from greatest_is_local_maximum [OF this] m
    have "\<exists>p\<in>set (maxima s). \<forall>q\<in>set (points s). val q \<le> val p" by simp
    then show ?thesis by auto
  qed
  from s n sub all ex show ?thesis by blast
qed

theorem nonempty_has_maximum_witness:
  "run calls_ABC_least FunctionMaxima_init = Some state_least \<and>
   size_fm (0, state_least) = Return 2 (0, state_least) \<and> (0::nat) < 2 \<and>
   maxima state_least \<noteq> [] \<and> Point 2 5 \<in> set (maxima state_least)"
proof -
  have n: "size_fm (0, state_least) = Return 2 (0, state_least)"
    by (simp add: size_fm_def state_least_def)
  have p: "Point 2 5 \<in> set (points state_least)" "\<forall>q\<in>set (points state_least). val q \<le> val (Point 2 5 :: (int, int) point_type)"
    by (simp_all add: state_least_def)
  from nonempty_has_maximum [of calls_ABC_least 0] run_least n p
  have "maxima state_least \<noteq> [] \<and> Point 2 5 \<in> set (maxima state_least)" by auto
  with run_least n show ?thesis by simp
qed

text \<open>
  C10. In every state that calls to \<open>set_value\<close> and \<open>erase\<close> lead to, \<open>size\<close> returns
  the number of points and changes nothing. A further call to \<open>set_value\<close> or \<open>erase\<close>
  makes a number \<open>m\<close>, at most fifteen, of steps that compare values of \<open>V\<close>; if the
  comparison throws at none of them, the call returns, and then \<open>set_value(a, v)\<close> has left the size as it was if \<open>a\<close>
  had a value and has added one to it otherwise, and \<open>erase(a)\<close> has taken one from the
  size if \<open>a\<close> had a value and has left it as it was otherwise. If the comparison throws
  at one of them, the call throws and the size is as it was.
\<close>

theorem size_arithmetic:
  "\<exists>s. run cs FunctionMaxima_init = Some s \<and>
     (\<forall>j. size_fm (j, s) = Return (length (points s)) (j, s)) \<and>
     (\<exists>m\<le>15. \<forall>k.
        (m \<le> k \<longrightarrow> (\<exists>s'. perform c (k, s) = Return () (k - m, s') \<and>
             (\<forall>j. size_fm (j, s') = Return (length (points s')) (j, s')) \<and>
             (case c of
                Set_value a v \<Rightarrow>
                  length (points s') =
                    (if a \<in> arg ` set (points s) then length (points s) else length (points s) + 1)
              | Erase a \<Rightarrow>
                  length (points s) =
                    (if a \<in> arg ` set (points s) then length (points s') + 1 else length (points s'))))) \<and>
        (k < m \<longrightarrow> (\<exists>s'. perform c (k, s) = Throw ComparisonFailure (0, s') \<and>
             (\<forall>j. size_fm (j, s') = Return (length (points s)) (j, s')))))"
proof -
  from reachable [of cs] obtain s where s: "run cs FunctionMaxima_init = Some s" and c: "consistent s"
    by blast
  from c have sp: "sorted_wrt compare_points (points s)" by (simp add: consistent_def)
  from perform_exact [OF c, of c] obtain m s' where m: "m \<le> 15"
    and p: "points s' = (case c of Set_value a v \<Rightarrow> assigned a v (points s) | Erase a \<Rightarrow> erased a (points s))"
    and ret: "\<And>k. m \<le> k \<Longrightarrow> perform c (k, s) = Return () (k - m, s')"
    and thr: "\<And>k. k < m \<Longrightarrow> \<exists>s''. perform c (k, s) = Throw ComparisonFailure (0, s'') \<and> points s'' = points s"
    by blast
  let ?n = "length (points s)" and ?n' = "length (points s')"
  have rel: "case c of
        Set_value a v \<Rightarrow> ?n' = (if a \<in> arg ` set (points s) then ?n else ?n + 1)
      | Erase a \<Rightarrow> ?n = (if a \<in> arg ` set (points s) then ?n' + 1 else ?n')"
  proof (cases c)
    case (Set_value a v)
    with p assigned_length [OF sp, of a v] show ?thesis by simp
  next
    case (Erase a)
    with p erased_length [OF sp, of a] show ?thesis by simp
  qed
  have size: "size_fm (j, t) = Return (length (points t)) (j, t)" for j and t :: "('a, 'b) FunctionMaxima"
    by (simp add: size_fm_def)
  have T: "\<exists>s'. perform c (k, s) = Throw ComparisonFailure (0, s') \<and>
             (\<forall>j. size_fm (j, s') = Return ?n (j, s'))" if "k < m" for k
  proof -
    from thr [OF that] obtain s'' where "perform c (k, s) = Throw ComparisonFailure (0, s'')"
      "points s'' = points s" by blast
    then show ?thesis using size [of _ s''] by auto
  qed
  from s m size ret rel T show ?thesis by blast
qed

theorem size_arithmetic_witness:
  "run calls_ABC FunctionMaxima_init = Some state_C \<and>
   size_fm (20, state_C) = Return 3 (20, state_C) \<and>
   (perform (Set_value 4 5) (20, state_C) = Return () (15, state_C4) \<and>
      size_fm (15, state_C4) = Return 4 (15, state_C4)) \<and>
   (perform (Erase 1) (20, state_C) = Return () (17, state_C_erased_1) \<and>
      size_fm (17, state_C_erased_1) = Return 2 (17, state_C_erased_1)) \<and>
   (perform (Erase 1) (2, state_C) = Throw ComparisonFailure (0, state_C) \<and>
      size_fm (0, state_C) = Return 3 (0, state_C)) \<and>
   (run calls_A FunctionMaxima_init = Some state_A \<and>
      size_fm (20, state_A) = Return 1 (20, state_A) \<and>
      perform (Erase 1) (20, state_A) = Return () (19, state_A_erased) \<and>
      size_fm (19, state_A_erased) = Return 0 (19, state_A_erased))"
proof -
  have l: "length (points state_C) = 3" "length (points state_A) = 1"
    "(4::int) \<notin> arg ` set (points state_C)" "(1::int) \<in> arg ` set (points state_C)"
    "(1::int) \<in> arg ` set (points state_A)"
    by (simp_all add: state_C_def state_A_def)
  have p2: "perform (Set_value 4 5) (20, state_C) = Return () (15, state_C4)"
    using set_value_4_5_state_C by simp
  have p3: "perform (Erase 1) (20, state_C) = Return () (17, state_C_erased_1)"
    using erase_1_state_C by simp
  have p4: "perform (Erase 1) (2, state_C) = Throw ComparisonFailure (0, state_C)"
    using erase_1_state_C_throws by simp
  have p5: "perform (Erase 1) (20, state_A) = Return () (19, state_A_erased)"
    using erase_1_state_A by simp
  note T2 = size_arithmetic [of calls_ABC "Set_value 4 5", unfolded run_ABC option.inject simp_thms call.case]
  note T3 = size_arithmetic [of calls_ABC "Erase 1", unfolded run_ABC option.inject simp_thms call.case]
  note T5 = size_arithmetic [of calls_A "Erase 1", unfolded run_A option.inject simp_thms call.case]
  from T3 l have nC: "size_fm (20, state_C) = Return 3 (20, state_C)" by simp
  from T5 l have nA: "size_fm (20, state_A) = Return 1 (20, state_A)" by simp
  from exact_returned [OF T2 [THEN conjunct2] p2] l
  have r2: "size_fm (15, state_C4) = Return 4 (15, state_C4)" by simp
  from exact_returned [OF T3 [THEN conjunct2] p3] l
  have r3: "size_fm (17, state_C_erased_1) = Return 2 (17, state_C_erased_1)" by simp
  from exact_thrown [OF T3 [THEN conjunct2] p4] l
  have r4: "size_fm (0, state_C) = Return 3 (0, state_C)" by simp
  from exact_returned [OF T5 [THEN conjunct2] p5] l
  have r5: "size_fm (19, state_A_erased) = Return 0 (19, state_A_erased)" by simp
  from run_ABC run_A nC nA p2 p3 p4 p5 r2 r3 r4 r5 show ?thesis by simp
qed

end
